theory Spec2Isabelle
  imports Main "HOL-Library.Multiset"
begin

section \<open>The token-list version classifier\<close>

text \<open>
  A shallow embedding of \<^verbatim>\<open>determineVersionIncrement\<close> and of the version
  update that consumes its verdict, both from the build script, together with the copy of
  the classifier that the test file \<^verbatim>\<open>tests/semantic-versioning.test.js\<close> carries.
  The classifier is given as the function from the change list to the verdict, and as its run,
  in which the call that can throw has its error as a result; the run is shown to end with
  the value of the function (\<open>determineVersionIncrement_run_eq\<close>).
\<close>

subsection \<open>Data model\<close>

text \<open>
  \<^verbatim>\<open>interface Token\<close>. The optional fields \<^verbatim>\<open>chainId?\<close> and \<^verbatim>\<open>logoURI?\<close> are
  options, \<open>None\<close> being JavaScript's \<^verbatim>\<open>undefined\<close>. The numbers \<^verbatim>\<open>chainId\<close> and
  \<^verbatim>\<open>decimals\<close> are integers, as the data model of the registry has them.
\<close>

record Token =
  address :: string
  chainId :: "int option"
  name :: string
  symbol :: string
  decimals :: int
  logoURI :: "string option"

text \<open>\<^verbatim>\<open>type: "added" | "modified" | "deleted"\<close>\<close>

datatype ChangeType = added | modified | deleted

text \<open>\<^verbatim>\<open>interface TokenChange\<close>; \<^verbatim>\<open>before?\<close> and \<^verbatim>\<open>after?\<close> may be absent.\<close>

record TokenChange =
  file' :: string
  type :: ChangeType
  before :: "Token list option"
  after :: "Token list option"

text \<open>
  The result type \<^verbatim>\<open>"major" | "minor" | "patch" | null\<close>: the three strings are the
  constructors \<open>Major\<close>, \<open>Minor\<close> and \<open>Patch\<close>, and \<^verbatim>\<open>null\<close> is \<open>None\<close>.
\<close>

datatype Increment = Major | Minor | Patch

text \<open>The three local flags of \<^verbatim>\<open>determineVersionIncrement\<close>.\<close>

record Flags =
  hasMajorChange :: bool
  hasMinorChange :: bool
  hasPatchChange :: bool

definition initFlags :: Flags where
  "initFlags = \<lparr>hasMajorChange = False, hasMinorChange = False, hasPatchChange = False\<rparr>"

subsection \<open>Template literals\<close>

text \<open>
  \<^verbatim>\<open>`${n}`\<close> for an integer \<open>n\<close>: its decimal digits, with a leading minus sign when
  negative (JavaScript prints integers of magnitude below \<open>10^21\<close> this way).
\<close>

definition digitChar :: "nat \<Rightarrow> char" where
  "digitChar d = char_of (48 + d)"

fun showNat :: "nat \<Rightarrow> string" where
  "showNat n = (if n < 10 then [digitChar n] else showNat (n div 10) @ [digitChar (n mod 10)])"

declare showNat.simps [simp del]

definition showInt :: "int \<Rightarrow> string" where
  "showInt i = (if i < 0 then CHR ''-'' # showNat (nat (- i)) else showNat (nat i))"

text \<open>
  The key of the build script, \<^verbatim>\<open>`${token.address}-${token.chainId}`\<close>: an absent
  \<^verbatim>\<open>chainId\<close> prints as \<^verbatim>\<open>undefined\<close>.
\<close>

definition tokenKey :: "Token \<Rightarrow> string" where
  "tokenKey token =
     address token @ ''-'' @ (case chainId token of None \<Rightarrow> ''undefined'' | Some n \<Rightarrow> showInt n)"

text \<open>
  The key of the test file, \<^verbatim>\<open>`${token.address}-${token.chainId || "undefined"}`\<close>:
  \<^verbatim>\<open>||\<close> takes its right operand when the left one is falsy, which for a number is
  \<open>0\<close>, and for an absent field is \<^verbatim>\<open>undefined\<close>.
\<close>

definition tokenKey_test :: "Token \<Rightarrow> string" where
  "tokenKey_test token =
     address token @ ''-'' @
       (case chainId token of
          None \<Rightarrow> ''undefined''
        | Some n \<Rightarrow> if n = 0 then ''undefined'' else showInt n)"

subsection \<open>JavaScript's Map\<close>

text \<open>
  A \<^verbatim>\<open>Map\<close> iterates in insertion order, and \<^verbatim>\<open>set\<close> on a key that is present
  replaces the value where the key stands: an association list, one pair per key.
\<close>

type_synonym 'v JsMap = "(string \<times> 'v) list"

fun Map_set :: "'v JsMap \<Rightarrow> string \<Rightarrow> 'v \<Rightarrow> 'v JsMap" where
  "Map_set [] k v = [(k, v)]"
| "Map_set ((k', v') # m) k v = (if k' = k then (k, v) # m else (k', v') # Map_set m k v)"

text \<open>\<^verbatim>\<open>new Map(entries)\<close> sets the entries one after the other.\<close>

definition new_Map :: "(string \<times> 'v) list \<Rightarrow> 'v JsMap" where
  "new_Map entries = foldl (\<lambda>m (k, v). Map_set m k v) [] entries"

definition Map_has :: "'v JsMap \<Rightarrow> string \<Rightarrow> bool" where
  "Map_has m k = (k \<in> set (map fst m))"

definition Map_get :: "'v JsMap \<Rightarrow> string \<Rightarrow> 'v option" where
  "Map_get m k = map_of m k"

subsection \<open>The classifier\<close>

text \<open>
  The first loop over \<^verbatim>\<open>beforeMap\<close>: a key that \<^verbatim>\<open>afterMap\<close> lacks sets the major flag
  and leaves the loop.
\<close>

fun removedLoop :: "Token JsMap \<Rightarrow> Token JsMap \<Rightarrow> Flags \<Rightarrow> Flags" where
  "removedLoop [] afterMap f = f"
| "removedLoop ((key, beforeToken) # rest) afterMap f =
     (if \<not> Map_has afterMap key then f\<lparr>hasMajorChange := True\<rparr>
      else removedLoop rest afterMap f)"

text \<open>The loop over \<^verbatim>\<open>afterMap\<close>: a key that \<^verbatim>\<open>beforeMap\<close> lacks sets the minor flag.\<close>

fun addedLoop :: "Token JsMap \<Rightarrow> Token JsMap \<Rightarrow> Flags \<Rightarrow> Flags" where
  "addedLoop [] beforeMap f = f"
| "addedLoop ((key, afterToken) # rest) beforeMap f =
     addedLoop rest beforeMap
       (if \<not> Map_has beforeMap key then f\<lparr>hasMinorChange := True\<rparr> else f)"

text \<open>
  \<^verbatim>\<open>fieldsToCheck = ["name", "symbol", "logoURI", "decimals"]\<close> and the values
  \<^verbatim>\<open>token[field]\<close>, compared with \<^verbatim>\<open>!==\<close>: two strings or two numbers are equal when they
  are the same value, \<^verbatim>\<open>undefined\<close> is equal to itself only.
\<close>

datatype Field = F_name | F_symbol | F_logoURI | F_decimals

datatype JsValue = JsString string | JsNumber int | JsUndefined

definition fieldsToCheck :: "Field list" where
  "fieldsToCheck = [F_name, F_symbol, F_logoURI, F_decimals]"

fun getField :: "Token \<Rightarrow> Field \<Rightarrow> JsValue" where
  "getField token F_name = JsString (name token)"
| "getField token F_symbol = JsString (symbol token)"
| "getField token F_logoURI = (case logoURI token of None \<Rightarrow> JsUndefined | Some u \<Rightarrow> JsString u)"
| "getField token F_decimals = JsNumber (decimals token)"

text \<open>The inner loop over the fields: the first mismatch sets the patch flag and leaves it.\<close>

fun fieldsLoop :: "Field list \<Rightarrow> Token \<Rightarrow> Token \<Rightarrow> Flags \<Rightarrow> Flags" where
  "fieldsLoop [] beforeToken afterToken f = f"
| "fieldsLoop (field # rest) beforeToken afterToken f =
     (if getField beforeToken field \<noteq> getField afterToken field
      then f\<lparr>hasPatchChange := True\<rparr>
      else fieldsLoop rest beforeToken afterToken f)"

text \<open>
  The second loop over \<^verbatim>\<open>beforeMap\<close>: a token that \<^verbatim>\<open>afterMap\<close> holds under the same key
  is compared; a different \<^verbatim>\<open>address\<close> or \<^verbatim>\<open>chainId\<close> sets the major flag and leaves the
  loop, otherwise the fields are compared.
\<close>

fun modifiedLoop :: "Token JsMap \<Rightarrow> Token JsMap \<Rightarrow> Flags \<Rightarrow> Flags" where
  "modifiedLoop [] afterMap f = f"
| "modifiedLoop ((key, beforeToken) # rest) afterMap f =
     (case Map_get afterMap key of
        None \<Rightarrow> modifiedLoop rest afterMap f
      | Some afterToken \<Rightarrow>
          if address beforeToken \<noteq> address afterToken \<or> chainId beforeToken \<noteq> chainId afterToken
          then f\<lparr>hasMajorChange := True\<rparr>
          else modifiedLoop rest afterMap (fieldsLoop fieldsToCheck beforeToken afterToken f))"

text \<open>\<^verbatim>\<open>change.before || []\<close>\<close>

definition orEmpty :: "Token list option \<Rightarrow> Token list" where
  "orEmpty ts = (case ts of None \<Rightarrow> [] | Some l \<Rightarrow> l)"

text \<open>
  The body of the \<^verbatim>\<open>modified\<close> branch. The build script and the test file differ in the
  key of the two maps only, so the key is a parameter.
\<close>

definition analyzeModified :: "(Token \<Rightarrow> string) \<Rightarrow> TokenChange \<Rightarrow> Flags \<Rightarrow> Flags" where
  "analyzeModified key change f =
     (let beforeMap = new_Map (map (\<lambda>token. (key token, token)) (orEmpty (before change)));
          afterMap = new_Map (map (\<lambda>token. (key token, token)) (orEmpty (after change)))
      in modifiedLoop beforeMap afterMap
           (addedLoop afterMap beforeMap (removedLoop beforeMap afterMap f)))"

text \<open>One turn of \<^verbatim>\<open>for (const change of changes)\<close>.\<close>

fun analyzeChange :: "(Token \<Rightarrow> string) \<Rightarrow> TokenChange \<Rightarrow> Flags \<Rightarrow> Flags" where
  "analyzeChange key change f =
     (case type change of
        deleted \<Rightarrow> f\<lparr>hasMajorChange := True\<rparr>
      | added \<Rightarrow> f\<lparr>hasMinorChange := True\<rparr>
      | modified \<Rightarrow> analyzeModified key change f)"

declare analyzeChange.simps [simp del]

fun analyzeChanges :: "(Token \<Rightarrow> string) \<Rightarrow> TokenChange list \<Rightarrow> Flags \<Rightarrow> Flags" where
  "analyzeChanges key [] f = f"
| "analyzeChanges key (change # changes) f = analyzeChanges key changes (analyzeChange key change f)"

text \<open>The returns at the end: the highest flag that is set decides.\<close>

definition resolveFlags :: "Flags \<Rightarrow> Increment option" where
  "resolveFlags f =
     (if hasMajorChange f then Some Major
      else if hasMinorChange f then Some Minor
      else if hasPatchChange f then Some Patch
      else None)"

definition classify :: "(Token \<Rightarrow> string) \<Rightarrow> TokenChange list \<Rightarrow> Increment option" where
  "classify key changes = resolveFlags (analyzeChanges key changes initFlags)"

text \<open>The classifier of the build script.\<close>

definition determineVersionIncrement :: "TokenChange list \<Rightarrow> Increment option" where
  "determineVersionIncrement changes = classify tokenKey changes"

text \<open>The classifier of the test file.\<close>

definition determineVersionIncrement_test :: "TokenChange list \<Rightarrow> Increment option" where
  "determineVersionIncrement_test changes = classify tokenKey_test changes"

subsection \<open>The run of the classifier, with its failures\<close>

text \<open>
  The one statement of the classifier that can fail on a value of its input type is the
  method call \<^verbatim>\<open>before.map(...)\<close>, and likewise \<^verbatim>\<open>after.map(...)\<close>: on
  \<^verbatim>\<open>undefined\<close> it throws a TypeError. The run of the function is therefore a sum, the
  thrown error on the left.
\<close>

datatype JsError = TypeError

text \<open>\<^verbatim>\<open>receiver.map(f)\<close>, the receiver being an array or \<^verbatim>\<open>undefined\<close>.\<close>

definition Array_map :: "('a \<Rightarrow> 'b) \<Rightarrow> 'a list option \<Rightarrow> JsError + 'b list" where
  "Array_map f receiver =
     (case receiver of None \<Rightarrow> Inl TypeError | Some xs \<Rightarrow> Inr (map f xs))"

text \<open>
  \<^verbatim>\<open>x || []\<close> as the receiver of a call: an array, the empty one too, is truthy and is
  kept, \<^verbatim>\<open>undefined\<close> is replaced by the empty array.
\<close>

definition orEmptyArray :: "'a list option \<Rightarrow> 'a list option" where
  "orEmptyArray x = (case x of None \<Rightarrow> Some [] | Some xs \<Rightarrow> Some xs)"

text \<open>The \<^verbatim>\<open>modified\<close> branch, statement by statement.\<close>

definition analyzeModified_run ::
  "(Token \<Rightarrow> string) \<Rightarrow> TokenChange \<Rightarrow> Flags \<Rightarrow> JsError + Flags" where
  "analyzeModified_run key change f =
     (let beforeTokens = orEmptyArray (before change);
          afterTokens = orEmptyArray (after change)
      in case Array_map (\<lambda>token. (key token, token)) beforeTokens of
           Inl e \<Rightarrow> Inl e
         | Inr beforeEntries \<Rightarrow>
             (case Array_map (\<lambda>token. (key token, token)) afterTokens of
                Inl e \<Rightarrow> Inl e
              | Inr afterEntries \<Rightarrow>
                  (let beforeMap = new_Map beforeEntries; afterMap = new_Map afterEntries
                   in Inr (modifiedLoop beforeMap afterMap
                        (addedLoop afterMap beforeMap (removedLoop beforeMap afterMap f))))))"

text \<open>
  The same branch without the two guards, \<^verbatim>\<open>change.before.map(...)\<close> and
  \<^verbatim>\<open>change.after.map(...)\<close>: what \<^verbatim>\<open>|| []\<close> is there to prevent.
\<close>

definition analyzeModified_unguarded ::
  "(Token \<Rightarrow> string) \<Rightarrow> TokenChange \<Rightarrow> Flags \<Rightarrow> JsError + Flags" where
  "analyzeModified_unguarded key change f =
     (case Array_map (\<lambda>token. (key token, token)) (before change) of
        Inl e \<Rightarrow> Inl e
      | Inr beforeEntries \<Rightarrow>
          (case Array_map (\<lambda>token. (key token, token)) (after change) of
             Inl e \<Rightarrow> Inl e
           | Inr afterEntries \<Rightarrow>
               (let beforeMap = new_Map beforeEntries; afterMap = new_Map afterEntries
                in Inr (modifiedLoop beforeMap afterMap
                     (addedLoop afterMap beforeMap (removedLoop beforeMap afterMap f))))))"

definition analyzeChange_run ::
  "(Token \<Rightarrow> string) \<Rightarrow> TokenChange \<Rightarrow> Flags \<Rightarrow> JsError + Flags" where
  "analyzeChange_run key change f =
     (case type change of
        deleted \<Rightarrow> Inr (f\<lparr>hasMajorChange := True\<rparr>)
      | added \<Rightarrow> Inr (f\<lparr>hasMinorChange := True\<rparr>)
      | modified \<Rightarrow> analyzeModified_run key change f)"

text \<open>The loop over the changes ends at the first error, as the exception would end it.\<close>

fun analyzeChanges_run ::
  "(Token \<Rightarrow> string) \<Rightarrow> TokenChange list \<Rightarrow> Flags \<Rightarrow> JsError + Flags" where
  "analyzeChanges_run key [] f = Inr f"
| "analyzeChanges_run key (change # changes) f =
     (case analyzeChange_run key change f of
        Inl e \<Rightarrow> Inl e
      | Inr f' \<Rightarrow> analyzeChanges_run key changes f')"

definition determineVersionIncrement_run :: "TokenChange list \<Rightarrow> JsError + Increment option" where
  "determineVersionIncrement_run changes =
     (case analyzeChanges_run tokenKey changes initFlags of
        Inl e \<Rightarrow> Inl e
      | Inr f \<Rightarrow> Inr (resolveFlags f))"

subsection \<open>The version update\<close>

text \<open>
  \<^verbatim>\<open>tokenlistTemplate.version\<close> and the template that holds it. The other fields of the
  template are copied by the spread \<^verbatim>\<open>...tokenlistTemplate\<close> and stay in the record's
  extension. The three numbers are integers held in JavaScript numbers.
\<close>

record Version =
  major :: int
  minor :: int
  patch :: int

record Template =
  version :: Version
  timestamp :: string

text \<open>
  The \<^verbatim>\<open>+\<close> of two numbers that hold integers: the sum, rounded to the nearest number,
  to the one of even mantissa when two are equally near. A number has a mantissa of 53 bits,
  so that from \<open>2^53 = 9007199254740992\<close> on the numbers are \<open>ulp\<close> apart, which doubles
  with every further bit. (Integers below \<open>2^1024\<close>, where the numbers end.)
\<close>

fun ulp :: "nat \<Rightarrow> nat" where
  "ulp m = (if m < 9007199254740992 then 1 else 2 * ulp (m div 2))"

declare ulp.simps [simp del]

definition toNumber :: "int \<Rightarrow> int" where
  "toNumber x =
     (let m = nat \<bar>x\<bar>; u = ulp m; q = m div u; r = m mod u;
          q' = (if 2 * r < u then q else if u < 2 * r then q + 1 else if even q then q else q + 1)
      in sgn x * int (q' * u))"

definition numberAdd :: "int \<Rightarrow> int \<Rightarrow> int" where
  "numberAdd a b = toNumber (a + b)"

text \<open>The \<^verbatim>\<open>switch (incrementType)\<close> that computes \<^verbatim>\<open>newVersion\<close>.\<close>

definition newVersion :: "Version \<Rightarrow> Increment \<Rightarrow> Version" where
  "newVersion v incrementType =
     (case incrementType of
        Major \<Rightarrow> \<lparr>major = numberAdd (major v) 1, minor = 0, patch = 0\<rparr>
      | Minor \<Rightarrow> v\<lparr>minor := numberAdd (minor v) 1, patch := 0\<rparr>
      | Patch \<Rightarrow> v\<lparr>patch := numberAdd (patch v) 1\<rparr>)"

text \<open>
  The branch on \<^verbatim>\<open>incrementType === null\<close>: without a verdict the template is kept,
  otherwise it gets the new version and the time of the run,
  \<^verbatim>\<open>new Date().toISOString()\<close>, which is the parameter \<open>currentTimestamp\<close>.
\<close>

definition applyIncrement ::
  "Increment option \<Rightarrow> string \<Rightarrow> 'a Template_scheme \<Rightarrow> 'a Template_scheme" where
  "applyIncrement incrementType currentTimestamp tokenlistTemplate =
     (case incrementType of
        None \<Rightarrow> tokenlistTemplate
      | Some i \<Rightarrow>
          tokenlistTemplate
            \<lparr>version := newVersion (version tokenlistTemplate) i,
             timestamp := currentTimestamp\<rparr>)"

text \<open>
  The block under \<^verbatim>\<open>if (shouldIncrementVersion)\<close>, from the parsed change list to
  \<^verbatim>\<open>updatedTemplate\<close>.
\<close>

definition updatedTemplate ::
  "bool \<Rightarrow> TokenChange list \<Rightarrow> string \<Rightarrow> 'a Template_scheme \<Rightarrow> 'a Template_scheme" where
  "updatedTemplate shouldIncrementVersion changes currentTimestamp tokenlistTemplate =
     (if shouldIncrementVersion
      then applyIncrement (determineVersionIncrement changes) currentTimestamp tokenlistTemplate
      else tokenlistTemplate)"

subsection \<open>Notions for the properties\<close>

text \<open>The flags that either of two runs sets.\<close>

definition orFlags :: "Flags \<Rightarrow> Flags \<Rightarrow> Flags" where
  "orFlags f g =
     \<lparr>hasMajorChange = hasMajorChange f \<or> hasMajorChange g,
      hasMinorChange = hasMinorChange f \<or> hasMinorChange g,
      hasPatchChange = hasPatchChange f \<or> hasPatchChange g\<rparr>"

text \<open>The two comparisons of the second loop over \<^verbatim>\<open>beforeMap\<close>.\<close>

definition idDiff :: "Token \<Rightarrow> Token \<Rightarrow> bool" where
  "idDiff b a = (address b \<noteq> address a \<or> chainId b \<noteq> chainId a)"

definition fieldDiff :: "Token \<Rightarrow> Token \<Rightarrow> bool" where
  "fieldDiff b a =
     (name b \<noteq> name a \<or> symbol b \<noteq> symbol a \<or> logoURI b \<noteq> logoURI a \<or>
      decimals b \<noteq> decimals a)"

text \<open>The token that a map built from \<open>ts\<close> holds under a key: the last one written.\<close>

definition lastByKey :: "(Token \<Rightarrow> string) \<Rightarrow> Token list \<Rightarrow> string \<Rightarrow> Token option" where
  "lastByKey key ts = map_of (rev (map (\<lambda>token. (key token, token)) ts))"

text \<open>
  What makes a record set each flag, read off the record: the type of the record, and for a
  \<open>modified\<close> record the tokens of \<open>before\<close> and \<open>after\<close> under their keys. A key of
  \<open>before\<close> that no token of \<open>after\<close> has, or under which the two maps hold tokens of
  different address or chainId, sets the major flag; a key of \<open>after\<close> that no token of
  \<open>before\<close> has sets the minor flag; a key under which the two maps hold tokens that
  differ in a compared field sets the patch flag.
\<close>

definition setsMajor :: "(Token \<Rightarrow> string) \<Rightarrow> TokenChange \<Rightarrow> bool" where
  "setsMajor key c =
     (type c = deleted \<or>
      type c = modified \<and>
        (\<exists>t \<in> set (orEmpty (before c)).
           case lastByKey key (orEmpty (after c)) (key t) of
             None \<Rightarrow> True
           | Some a \<Rightarrow>
               (case lastByKey key (orEmpty (before c)) (key t) of
                  None \<Rightarrow> False
                | Some b \<Rightarrow> idDiff b a)))"

definition setsMinor :: "(Token \<Rightarrow> string) \<Rightarrow> TokenChange \<Rightarrow> bool" where
  "setsMinor key c =
     (type c = added \<or>
      type c = modified \<and>
        (\<exists>t \<in> set (orEmpty (after c)). lastByKey key (orEmpty (before c)) (key t) = None))"

definition setsPatch :: "(Token \<Rightarrow> string) \<Rightarrow> TokenChange \<Rightarrow> bool" where
  "setsPatch key c =
     (type c = modified \<and>
        (\<exists>t \<in> set (orEmpty (before c)).
           case lastByKey key (orEmpty (after c)) (key t) of
             None \<Rightarrow> False
           | Some a \<Rightarrow>
               (case lastByKey key (orEmpty (before c)) (key t) of
                  None \<Rightarrow> False
                | Some b \<Rightarrow> fieldDiff b a)))"

text \<open>The priority of the verdicts, and the highest of a list of verdicts.\<close>

fun rank :: "Increment option \<Rightarrow> nat" where
  "rank None = 0"
| "rank (Some Patch) = 1"
| "rank (Some Minor) = 2"
| "rank (Some Major) = 3"

definition higher :: "Increment option \<Rightarrow> Increment option \<Rightarrow> Increment option" where
  "higher v w = (if rank w \<le> rank v then v else w)"

definition highest :: "Increment option list \<Rightarrow> Increment option" where
  "highest vs = foldr higher vs None"

text \<open>
  Reading a decimal numeral back, and the text that the key of the build script has after
  the address and the minus sign.
\<close>

definition readNat :: "string \<Rightarrow> nat" where
  "readNat s = foldl (\<lambda>acc c. 10 * acc + (of_char c - 48)) 0 s"

definition chainIdText :: "int option \<Rightarrow> string" where
  "chainIdText c = (case c of None \<Rightarrow> ''undefined'' | Some n \<Rightarrow> showInt n)"

subsection \<open>Scenarios\<close>

text \<open>Tokens and change records of the kind the test file uses.\<close>

definition testToken :: Token where
  "testToken =
     \<lparr>address = ''0x123'', chainId = None, name = ''Test'', symbol = ''TEST'', decimals = 18,
      logoURI = Some ''test.png''\<rparr>"

definition newToken :: Token where
  "newToken =
     \<lparr>address = ''0x456'', chainId = None, name = ''New Token'', symbol = ''NEW'', decimals = 18,
      logoURI = Some ''new.png''\<rparr>"

definition oldToken :: Token where
  "oldToken =
     \<lparr>address = ''0x789'', chainId = None, name = ''Old Token'', symbol = ''OLD'', decimals = 18,
      logoURI = Some ''old.png''\<rparr>"

definition modifiedFile :: "Token list \<Rightarrow> Token list \<Rightarrow> TokenChange" where
  "modifiedFile bs as =
     \<lparr>file' = ''chains/1.json'', type = modified, before = Some bs, after = Some as\<rparr>"

definition deletedFile :: TokenChange where
  "deletedFile = \<lparr>file' = ''chains/1.json'', type = deleted, before = None, after = None\<rparr>"

definition addedFile :: TokenChange where
  "addedFile =
     \<lparr>file' = ''chains/10.json'', type = added, before = None, after = Some [newToken]\<rparr>"

definition baseTemplate :: Template where
  "baseTemplate =
     \<lparr>version = \<lparr>major = 1, minor = 4, patch = 2\<rparr>, timestamp = ''2023-01-01T00:00:00.000Z''\<rparr>"

section \<open>Properties\<close>

subsection \<open>The map\<close>

text \<open>
  A map built by \<open>new_Map\<close> has one pair per key and looks a key up as the reversed entry
  list does: the last write wins.
\<close>

lemma Map_set_map_of: "map_of (Map_set m k v) = (map_of m)(k \<mapsto> v)"
  by (induction m k v rule: Map_set.induct) auto

lemma Map_set_keys: "fst ` set (Map_set m k v) = insert k (fst ` set m)"
  by (induction m k v rule: Map_set.induct) auto

lemma Map_set_distinct: "distinct (map fst m) \<Longrightarrow> distinct (map fst (Map_set m k v))"
proof (induction m k v rule: Map_set.induct)
  case (1 k v)
  then show ?case by simp
next
  case (2 k' v' m k v)
  then show ?case using Map_set_keys [of m k v] by (auto simp: image_iff)
qed

lemma foldl_Map_set_map_of:
  "map_of (foldl (\<lambda>m (k, v). Map_set m k v) m0 es) = map_of (rev es @ m0)"
proof (induction es arbitrary: m0)
  case Nil
  then show ?case by simp
next
  case (Cons e es)
  obtain k v where e: "e = (k, v)" by (cases e)
  show ?case
    by (simp add: Cons.IH e Map_set_map_of map_add_def fun_eq_iff split: option.splits)
qed

lemma foldl_Map_set_keys:
  "fst ` set (foldl (\<lambda>m (k, v). Map_set m k v) m0 es) = fst ` set m0 \<union> fst ` set es"
proof (induction es arbitrary: m0)
  case Nil
  then show ?case by simp
next
  case (Cons e es)
  obtain k v where e: "e = (k, v)" by (cases e)
  show ?case
    unfolding e using Map_set_keys [of m0 k v] by (simp add: Cons.IH)
qed

lemma foldl_Map_set_distinct:
  "distinct (map fst m0) \<Longrightarrow> distinct (map fst (foldl (\<lambda>m (k, v). Map_set m k v) m0 es))"
  by (induction es arbitrary: m0) (auto simp: Map_set_distinct split: prod.splits)

lemma new_Map_map_of: "map_of (new_Map es) = map_of (rev es)"
  by (simp add: new_Map_def foldl_Map_set_map_of)

lemma new_Map_keys: "fst ` set (new_Map es) = fst ` set es"
  by (simp add: new_Map_def foldl_Map_set_keys)

lemma new_Map_distinct: "distinct (map fst (new_Map es))"
  by (simp add: new_Map_def foldl_Map_set_distinct)

lemma new_Map_set: "set (new_Map es) = {(k, v). map_of (rev es) k = Some v}"
  using new_Map_distinct [of es] new_Map_map_of [of es]
  by (auto simp del: map_of_eq_Some_iff simp add: map_of_eq_Some_iff [symmetric])

lemma Map_has_iff: "Map_has m k = (map_of m k \<noteq> None)"
  by (simp add: Map_has_def map_of_eq_None_iff)

subsection \<open>Flags are set, never cleared\<close>

text \<open>
  Every loop, and so every record, adds its own flags to the ones it finds: running from
  \<open>orFlags f g\<close> is running from \<open>g\<close> and adding \<open>f\<close>.
\<close>

lemma orFlags_init [simp]: "orFlags f initFlags = f"
  by (simp add: orFlags_def initFlags_def)

lemma orFlags_major: "orFlags f (g\<lparr>hasMajorChange := True\<rparr>) = (orFlags f g)\<lparr>hasMajorChange := True\<rparr>"
  by (simp add: orFlags_def)

lemma orFlags_minor: "orFlags f (g\<lparr>hasMinorChange := True\<rparr>) = (orFlags f g)\<lparr>hasMinorChange := True\<rparr>"
  by (simp add: orFlags_def)

lemma orFlags_patch: "orFlags f (g\<lparr>hasPatchChange := True\<rparr>) = (orFlags f g)\<lparr>hasPatchChange := True\<rparr>"
  by (simp add: orFlags_def)

lemma removedLoop_or: "removedLoop bm am (orFlags f g) = orFlags f (removedLoop bm am g)"
  by (induction bm am g rule: removedLoop.induct) (simp_all add: orFlags_major)

lemma addedLoop_or: "addedLoop am bm (orFlags f g) = orFlags f (addedLoop am bm g)"
  by (induction am bm g rule: addedLoop.induct) (auto simp: orFlags_minor [symmetric])

lemma fieldsLoop_or: "fieldsLoop fs b a (orFlags f g) = orFlags f (fieldsLoop fs b a g)"
  by (induction fs b a g rule: fieldsLoop.induct) (simp_all add: orFlags_patch)

lemma modifiedLoop_or: "modifiedLoop bm am (orFlags f g) = orFlags f (modifiedLoop bm am g)"
  by (induction bm am g rule: modifiedLoop.induct)
     (simp_all add: orFlags_major fieldsLoop_or split: option.splits)

lemma analyzeModified_or: "analyzeModified key c (orFlags f g) = orFlags f (analyzeModified key c g)"
  by (simp add: analyzeModified_def Let_def removedLoop_or addedLoop_or modifiedLoop_or)

lemma analyzeChange_or: "analyzeChange key c (orFlags f g) = orFlags f (analyzeChange key c g)"
  by (simp add: analyzeChange.simps analyzeModified_or orFlags_major orFlags_minor
      split: ChangeType.splits)

lemma analyzeChanges_or: "analyzeChanges key cs (orFlags f g) = orFlags f (analyzeChanges key cs g)"
  by (induction cs arbitrary: g) (simp_all add: analyzeChange_or)

lemma analyzeChanges_Cons:
  "analyzeChanges key (c # cs) initFlags =
     orFlags (analyzeChange key c initFlags) (analyzeChanges key cs initFlags)"
  using analyzeChanges_or [of key cs "analyzeChange key c initFlags" initFlags] by simp

lemma analyzeChanges_append:
  "analyzeChanges key (cs @ ds) f = analyzeChanges key ds (analyzeChanges key cs f)"
  by (induction cs arbitrary: f) simp_all

subsection \<open>What each loop sets\<close>

lemma removedLoop_major:
  "hasMajorChange (removedLoop bm am f) = (hasMajorChange f \<or> (\<exists>k \<in> fst ` set bm. \<not> Map_has am k))"
  by (induction bm am f rule: removedLoop.induct) auto

lemma removedLoop_minor: "hasMinorChange (removedLoop bm am f) = hasMinorChange f"
  by (induction bm am f rule: removedLoop.induct) auto

lemma removedLoop_patch: "hasPatchChange (removedLoop bm am f) = hasPatchChange f"
  by (induction bm am f rule: removedLoop.induct) auto

lemma addedLoop_minor:
  "hasMinorChange (addedLoop am bm f) = (hasMinorChange f \<or> (\<exists>k \<in> fst ` set am. \<not> Map_has bm k))"
  by (induction am bm f rule: addedLoop.induct) auto

lemma addedLoop_major: "hasMajorChange (addedLoop am bm f) = hasMajorChange f"
  by (induction am bm f rule: addedLoop.induct) auto

lemma addedLoop_patch: "hasPatchChange (addedLoop am bm f) = hasPatchChange f"
  by (induction am bm f rule: addedLoop.induct) auto

lemma fieldsLoop_major: "hasMajorChange (fieldsLoop fs b a f) = hasMajorChange f"
  by (induction fs b a f rule: fieldsLoop.induct) auto

lemma fieldsLoop_minor: "hasMinorChange (fieldsLoop fs b a f) = hasMinorChange f"
  by (induction fs b a f rule: fieldsLoop.induct) auto

lemma fieldsLoop_patch_gen:
  "hasPatchChange (fieldsLoop fs b a f) = (hasPatchChange f \<or> (\<exists>fld \<in> set fs. getField b fld \<noteq> getField a fld))"
  by (induction fs b a f rule: fieldsLoop.induct) auto

lemma fieldsLoop_patch:
  "hasPatchChange (fieldsLoop fieldsToCheck b a f) = (hasPatchChange f \<or> fieldDiff b a)"
  by (auto simp: fieldsLoop_patch_gen fieldsToCheck_def fieldDiff_def split: option.splits)

lemma modifiedLoop_major:
  "hasMajorChange (modifiedLoop bm am f) =
     (hasMajorChange f \<or> (\<exists>(k, b) \<in> set bm. \<exists>a. map_of am k = Some a \<and> idDiff b a))"
  by (induction bm am f rule: modifiedLoop.induct)
     (auto simp: Map_get_def idDiff_def fieldsLoop_major split: option.splits)

lemma modifiedLoop_minor: "hasMinorChange (modifiedLoop bm am f) = hasMinorChange f"
  by (induction bm am f rule: modifiedLoop.induct)
     (auto simp: fieldsLoop_minor split: option.splits)

lemma modifiedLoop_patch:
  "\<not> (\<exists>(k, b) \<in> set bm. \<exists>a. map_of am k = Some a \<and> idDiff b a) \<Longrightarrow>
   hasPatchChange (modifiedLoop bm am f) =
     (hasPatchChange f \<or> (\<exists>(k, b) \<in> set bm. \<exists>a. map_of am k = Some a \<and> fieldDiff b a))"
proof (induction bm am f rule: modifiedLoop.induct)
  case (1 am f)
  then show ?case by simp
next
  case (2 key beforeToken rest am f)
  show ?case
  proof (cases "map_of am key")
    case None
    with 2 show ?thesis by (simp add: Map_get_def)
  next
    case (Some a)
    with 2(3) have nd: "\<not> idDiff beforeToken a" by auto
    from 2(3) have rest: "\<not> (\<exists>(k, b) \<in> set rest. \<exists>a. map_of am k = Some a \<and> idDiff b a)" by auto
    from nd have nd': "\<not> (address beforeToken \<noteq> address a \<or> chainId beforeToken \<noteq> chainId a)"
      by (simp add: idDiff_def)
    show ?thesis
      using 2(2) [OF _ nd' rest] Some nd'
      by (auto simp: Map_get_def fieldsLoop_patch)
  qed
qed

subsection \<open>One modified record\<close>

text \<open>
  The flags of a \<open>modified\<close> record in terms of the tokens that the two maps hold under
  each key. The patch flag is exact when the major flag stays unset: the second loop over
  \<^verbatim>\<open>beforeMap\<close> stops at the first token whose address or chainId differs.
\<close>

lemma lastByKey_new_Map: "map_of (new_Map (map (\<lambda>token. (key token, token)) ts)) = lastByKey key ts"
  by (simp add: new_Map_map_of lastByKey_def rev_map)

lemma new_Map_entries:
  "((k, b) \<in> set (new_Map (map (\<lambda>token. (key token, token)) ts))) = (lastByKey key ts k = Some b)"
  by (simp add: new_Map_set lastByKey_def rev_map)

lemma new_Map_has:
  "Map_has (new_Map (map (\<lambda>token. (key token, token)) ts)) k = (lastByKey key ts k \<noteq> None)"
  by (simp add: Map_has_iff lastByKey_new_Map)

lemma new_Map_key_image:
  "(k \<in> fst ` set (new_Map (map (\<lambda>token. (key token, token)) ts))) = (lastByKey key ts k \<noteq> None)"
  using new_Map_has [of key ts k] by (simp add: Map_has_def)

lemma ex_case_option:
  "(\<exists>k b. B k = Some b \<and> (case A k of None \<Rightarrow> True | Some a \<Rightarrow> P b a)) =
   ((\<exists>k b. B k = Some b \<and> A k = None) \<or> (\<exists>k b a. B k = Some b \<and> A k = Some a \<and> P b a))"
proof
  assume "\<exists>k b. B k = Some b \<and> (case A k of None \<Rightarrow> True | Some a \<Rightarrow> P b a)"
  then obtain k b where kb: "B k = Some b" "case A k of None \<Rightarrow> True | Some a \<Rightarrow> P b a" by blast
  show "(\<exists>k b. B k = Some b \<and> A k = None) \<or> (\<exists>k b a. B k = Some b \<and> A k = Some a \<and> P b a)"
  proof (cases "A k")
    case None
    with kb show ?thesis by blast
  next
    case (Some a)
    with kb have "P b a" by simp
    with kb Some show ?thesis by blast
  qed
next
  assume "(\<exists>k b. B k = Some b \<and> A k = None) \<or> (\<exists>k b a. B k = Some b \<and> A k = Some a \<and> P b a)"
  then show "\<exists>k b. B k = Some b \<and> (case A k of None \<Rightarrow> True | Some a \<Rightarrow> P b a)"
    by force
qed

lemma analyzeModified_major:
  "hasMajorChange (analyzeModified key c f) =
     (hasMajorChange f \<or>
      (\<exists>k b. lastByKey key (orEmpty (before c)) k = Some b \<and>
         (case lastByKey key (orEmpty (after c)) k of None \<Rightarrow> True | Some a \<Rightarrow> idDiff b a)))"
proof -
  let ?bm = "new_Map (map (\<lambda>token. (key token, token)) (orEmpty (before c)))"
  let ?am = "new_Map (map (\<lambda>token. (key token, token)) (orEmpty (after c)))"
  have 1: "(\<exists>k \<in> fst ` set ?bm. \<not> Map_has ?am k) =
        (\<exists>k b. lastByKey key (orEmpty (before c)) k = Some b \<and> lastByKey key (orEmpty (after c)) k = None)"
    by (simp only: new_Map_has Bex_def new_Map_key_image) auto
  have 2: "(\<exists>(k, b) \<in> set ?bm. \<exists>a. map_of ?am k = Some a \<and> idDiff b a) =
        (\<exists>k b a. lastByKey key (orEmpty (before c)) k = Some b \<and> lastByKey key (orEmpty (after c)) k = Some a \<and> idDiff b a)"
    by (simp only: lastByKey_new_Map Bex_def split_paired_Ex new_Map_entries) auto
  have "hasMajorChange (analyzeModified key c f) =
      (hasMajorChange f \<or> (\<exists>k \<in> fst ` set ?bm. \<not> Map_has ?am k) \<or>
        (\<exists>(k, b) \<in> set ?bm. \<exists>a. map_of ?am k = Some a \<and> idDiff b a))"
    by (simp add: analyzeModified_def Let_def modifiedLoop_major addedLoop_major removedLoop_major)
  then show ?thesis unfolding 1 2 ex_case_option .
qed

lemma analyzeModified_minor:
  "hasMinorChange (analyzeModified key c f) =
     (hasMinorChange f \<or>
      (\<exists>k a. lastByKey key (orEmpty (after c)) k = Some a \<and> lastByKey key (orEmpty (before c)) k = None))"
proof -
  let ?bm = "new_Map (map (\<lambda>token. (key token, token)) (orEmpty (before c)))"
  let ?am = "new_Map (map (\<lambda>token. (key token, token)) (orEmpty (after c)))"
  have 1: "(\<exists>k \<in> fst ` set ?am. \<not> Map_has ?bm k) =
        (\<exists>k a. lastByKey key (orEmpty (after c)) k = Some a \<and> lastByKey key (orEmpty (before c)) k = None)"
    by (simp only: new_Map_has Bex_def new_Map_key_image) auto
  have "hasMinorChange (analyzeModified key c f) =
      (hasMinorChange f \<or> (\<exists>k \<in> fst ` set ?am. \<not> Map_has ?bm k))"
    by (simp add: analyzeModified_def Let_def modifiedLoop_minor addedLoop_minor removedLoop_minor)
  then show ?thesis unfolding 1 .
qed

lemma analyzeModified_patch:
  assumes "\<not> hasMajorChange (analyzeModified key c f)"
  shows "hasPatchChange (analyzeModified key c f) =
     (hasPatchChange f \<or>
      (\<exists>k b a. lastByKey key (orEmpty (before c)) k = Some b \<and>
         lastByKey key (orEmpty (after c)) k = Some a \<and> fieldDiff b a))"
proof -
  let ?bm = "new_Map (map (\<lambda>token. (key token, token)) (orEmpty (before c)))"
  let ?am = "new_Map (map (\<lambda>token. (key token, token)) (orEmpty (after c)))"
  let ?g = "addedLoop ?am ?bm (removedLoop ?bm ?am f)"
  have am: "analyzeModified key c f = modifiedLoop ?bm ?am ?g"
    by (simp add: analyzeModified_def Let_def)
  from assms have no: "\<not> (\<exists>(k, b) \<in> set ?bm. \<exists>a. map_of ?am k = Some a \<and> idDiff b a)"
    unfolding am modifiedLoop_major by blast
  have 2: "(\<exists>(k, b) \<in> set ?bm. \<exists>a. map_of ?am k = Some a \<and> fieldDiff b a) =
        (\<exists>k b a. lastByKey key (orEmpty (before c)) k = Some b \<and> lastByKey key (orEmpty (after c)) k = Some a \<and> fieldDiff b a)"
    by (simp only: lastByKey_new_Map Bex_def split_paired_Ex new_Map_entries) auto
  have "hasPatchChange ?g = hasPatchChange f"
    by (simp add: addedLoop_patch removedLoop_patch)
  then show ?thesis
    unfolding am modifiedLoop_patch [OF no] 2 by simp
qed

subsection \<open>Lists of records\<close>

text \<open>A flag is set after the loop when some record sets it on its own.\<close>

lemma resolveFlags_or: "resolveFlags (orFlags f g) = higher (resolveFlags f) (resolveFlags g)"
  by (simp add: resolveFlags_def orFlags_def higher_def)

lemma analyzeChange_init: "analyzeChange key c f = orFlags f (analyzeChange key c initFlags)"
  using analyzeChange_or [of key c f initFlags] by simp

lemma analyzeChanges_major:
  "hasMajorChange (analyzeChanges key cs f) =
     (hasMajorChange f \<or> (\<exists>c \<in> set cs. hasMajorChange (analyzeChange key c initFlags)))"
proof (induction cs arbitrary: f)
  case Nil
  then show ?case by simp
next
  case (Cons c cs)
  have "hasMajorChange (analyzeChange key c f) =
      (hasMajorChange f \<or> hasMajorChange (analyzeChange key c initFlags))"
    by (subst analyzeChange_init) (simp add: orFlags_def)
  then show ?case by (simp add: Cons.IH)
qed

lemma analyzeChanges_minor:
  "hasMinorChange (analyzeChanges key cs f) =
     (hasMinorChange f \<or> (\<exists>c \<in> set cs. hasMinorChange (analyzeChange key c initFlags)))"
proof (induction cs arbitrary: f)
  case Nil
  then show ?case by simp
next
  case (Cons c cs)
  have "hasMinorChange (analyzeChange key c f) =
      (hasMinorChange f \<or> hasMinorChange (analyzeChange key c initFlags))"
    by (subst analyzeChange_init) (simp add: orFlags_def)
  then show ?case by (simp add: Cons.IH)
qed

lemma analyzeChanges_patch:
  "hasPatchChange (analyzeChanges key cs f) =
     (hasPatchChange f \<or> (\<exists>c \<in> set cs. hasPatchChange (analyzeChange key c initFlags)))"
proof (induction cs arbitrary: f)
  case Nil
  then show ?case by simp
next
  case (Cons c cs)
  have "hasPatchChange (analyzeChange key c f) =
      (hasPatchChange f \<or> hasPatchChange (analyzeChange key c initFlags))"
    by (subst analyzeChange_init) (simp add: orFlags_def)
  then show ?case by (simp add: Cons.IH)
qed

lemma classify_set: "set cs' = set cs \<Longrightarrow> classify key cs' = classify key cs"
  by (simp add: classify_def resolveFlags_def analyzeChanges_major analyzeChanges_minor
      analyzeChanges_patch)

lemma higher_None [simp]: "higher v None = v"
  by (simp add: higher_def)

lemma resolveFlags_init [simp]: "resolveFlags initFlags = None"
  by (simp add: resolveFlags_def initFlags_def)

lemma classify_single: "classify key [c] = resolveFlags (analyzeChange key c initFlags)"
  by (simp add: classify_def)

lemma classify_Cons: "classify key (c # cs) = higher (classify key [c]) (classify key cs)"
  unfolding classify_single unfolding classify_def analyzeChanges_Cons resolveFlags_or ..

lemma classify_highest: "classify key cs = highest (map (\<lambda>c. classify key [c]) cs)"
proof (induction cs)
  case Nil
  then show ?case by (simp add: classify_def highest_def resolveFlags_def initFlags_def)
next
  case (Cons c cs)
  have "classify key (c # cs) = higher (classify key [c]) (classify key cs)"
    by (rule classify_Cons)
  with Cons show ?case by (simp add: highest_def)
qed

lemma classify_major_iff:
  "(classify key cs = Some Major) = (\<exists>c \<in> set cs. hasMajorChange (analyzeChange key c initFlags))"
  by (simp add: classify_def resolveFlags_def analyzeChanges_major initFlags_def)

lemma classify_range: "classify key cs \<in> {Some Major, Some Minor, Some Patch, None}"
  by (simp add: classify_def resolveFlags_def)

lemma classify_pair:
  assumes "classify key [c1] = Some Minor" "classify key [c2] = Some Patch"
  shows "classify key [c1, c2] = Some Minor" "classify key [c2, c1] = Some Minor"
  using assms classify_Cons [of key c1 "[c2]"] classify_Cons [of key c2 "[c1]"]
  by (simp_all add: higher_def)

subsection \<open>The token a map holds under a key\<close>

text \<open>
  When no two different tokens of a sequence share a key, the map holds under a key the token
  of the sequence that has it, whatever the order. The verdict of a list depends on a record
  through its major and minor flags, and through its patch flag when its major flag is unset.
\<close>

lemma lastByKey_None_iff: "(lastByKey key ts k = None) = (k \<notin> key ` set ts)"
  by (simp add: lastByKey_def map_of_eq_None_iff image_image)

lemma lastByKey_SomeD: "lastByKey key ts k = Some t \<Longrightarrow> t \<in> set ts \<and> key t = k"
  unfolding lastByKey_def by (drule map_of_SomeD) auto

lemma lastByKey_Some_iff:
  assumes "inj_on key (set ts)"
  shows "(lastByKey key ts k = Some t) = (t \<in> set ts \<and> key t = k)"
proof
  assume "lastByKey key ts k = Some t"
  then show "t \<in> set ts \<and> key t = k" by (rule lastByKey_SomeD)
next
  assume t: "t \<in> set ts \<and> key t = k"
  then have "lastByKey key ts k \<noteq> None" by (auto simp: lastByKey_None_iff)
  then obtain t' where t': "lastByKey key ts k = Some t'" by blast
  then have "t' \<in> set ts \<and> key t' = k" by (rule lastByKey_SomeD)
  with t assms have "t' = t" by (auto dest: inj_onD)
  with t' show "lastByKey key ts k = Some t" by simp
qed

lemma lastByKey_cong_set:
  assumes "set ts' = set ts" "inj_on key (set ts)"
  shows "lastByKey key ts' = lastByKey key ts"
proof
  fix k
  show "lastByKey key ts' k = lastByKey key ts k"
  proof (cases "lastByKey key ts k")
    case None
    then have "k \<notin> key ` set ts" by (simp add: lastByKey_None_iff)
    with assms have "lastByKey key ts' k = None" by (simp add: lastByKey_None_iff)
    with None show ?thesis by simp
  next
    case (Some t)
    with assms have "t \<in> set ts' \<and> key t = k" by (simp add: lastByKey_Some_iff)
    moreover from assms have "inj_on key (set ts')" by simp
    ultimately have "lastByKey key ts' k = Some t" by (simp add: lastByKey_Some_iff)
    with Some show ?thesis by simp
  qed
qed

lemma lastByKey_append_Cons:
  "lastByKey key (ts1 @ t # ts2) k =
     (case lastByKey key ts2 k of
        Some x \<Rightarrow> Some x
      | None \<Rightarrow> if key t = k then Some t else lastByKey key ts1 k)"
  by (simp add: lastByKey_def map_add_def split: option.splits)

lemma analyzeChange_cong:
  assumes "type c' = type c"
    and "lastByKey key (orEmpty (before c')) = lastByKey key (orEmpty (before c))"
    and "lastByKey key (orEmpty (after c')) = lastByKey key (orEmpty (after c))"
  shows "hasMajorChange (analyzeChange key c' initFlags) = hasMajorChange (analyzeChange key c initFlags)"
    and "hasMinorChange (analyzeChange key c' initFlags) = hasMinorChange (analyzeChange key c initFlags)"
    and "\<not> hasMajorChange (analyzeChange key c initFlags) \<Longrightarrow>
      hasPatchChange (analyzeChange key c' initFlags) = hasPatchChange (analyzeChange key c initFlags)"
proof -
  show major: "hasMajorChange (analyzeChange key c' initFlags) = hasMajorChange (analyzeChange key c initFlags)"
    using assms by (simp add: analyzeChange.simps analyzeModified_major split: ChangeType.splits)
  show "hasMinorChange (analyzeChange key c' initFlags) = hasMinorChange (analyzeChange key c initFlags)"
    using assms by (simp add: analyzeChange.simps analyzeModified_minor split: ChangeType.splits)
  assume no: "\<not> hasMajorChange (analyzeChange key c initFlags)"
  with major have no': "\<not> hasMajorChange (analyzeChange key c' initFlags)" by simp
  show "hasPatchChange (analyzeChange key c' initFlags) = hasPatchChange (analyzeChange key c initFlags)"
  proof (cases "type c")
    case modified
    with no no' assms(1) have
      "\<not> hasMajorChange (analyzeModified key c initFlags)"
      "\<not> hasMajorChange (analyzeModified key c' initFlags)"
      by (simp_all add: analyzeChange.simps)
    then show ?thesis
      using modified assms by (simp add: analyzeChange.simps analyzeModified_patch)
  qed (use assms in \<open>simp_all add: analyzeChange.simps\<close>)
qed

lemma classify_cong:
  assumes "hasMajorChange (analyzeChange key c' initFlags) = hasMajorChange (analyzeChange key c initFlags)"
    and "hasMinorChange (analyzeChange key c' initFlags) = hasMinorChange (analyzeChange key c initFlags)"
    and "\<not> hasMajorChange (analyzeChange key c initFlags) \<Longrightarrow>
      hasPatchChange (analyzeChange key c' initFlags) = hasPatchChange (analyzeChange key c initFlags)"
  shows "classify key (pre @ c' # post) = classify key (pre @ c # post)"
  using assms
  by (simp add: classify_def resolveFlags_def analyzeChanges_major analyzeChanges_minor
      analyzeChanges_patch)

lemma initFlags_sel [simp]:
  "hasMajorChange initFlags = False" "hasMinorChange initFlags = False"
  "hasPatchChange initFlags = False"
  by (simp_all add: initFlags_def)

lemma classify_modified:
  assumes "type c = modified"
  shows "classify key [c] =
    (if \<exists>k b. lastByKey key (orEmpty (before c)) k = Some b \<and>
         (case lastByKey key (orEmpty (after c)) k of None \<Rightarrow> True | Some a \<Rightarrow> idDiff b a)
     then Some Major
     else if \<exists>k a. lastByKey key (orEmpty (after c)) k = Some a \<and>
         lastByKey key (orEmpty (before c)) k = None
     then Some Minor
     else if \<exists>k b a. lastByKey key (orEmpty (before c)) k = Some b \<and>
         lastByKey key (orEmpty (after c)) k = Some a \<and> fieldDiff b a
     then Some Patch
     else None)"
proof -
  have c: "analyzeChange key c initFlags = analyzeModified key c initFlags"
    using assms by (simp add: analyzeChange.simps)
  show ?thesis
  proof (cases "hasMajorChange (analyzeModified key c initFlags)")
    case True
    then show ?thesis
      using True [unfolded analyzeModified_major]
      by (simp add: classify_single c resolveFlags_def)
  next
    case False
    from False [unfolded analyzeModified_major] analyzeModified_patch [OF False] False
    show ?thesis
      by (simp add: classify_single c resolveFlags_def analyzeModified_minor)
  qed
qed

lemma tokenKey_decimals [simp]: "tokenKey (t\<lparr>decimals := d\<rparr>) = tokenKey t"
  by (simp add: tokenKey_def)

lemma idDiff_refl [simp]: "\<not> idDiff t t"
  by (simp add: idDiff_def)

lemma fieldDiff_refl [simp]: "\<not> fieldDiff t t"
  by (simp add: fieldDiff_def)

lemma classify_same_maps:
  assumes "type c = modified"
    and "lastByKey key (orEmpty (after c)) = lastByKey key (orEmpty (before c))"
  shows "classify key [c] = None"
  unfolding classify_modified [OF assms(1)] assms(2)
  by (auto split: option.splits)

subsection \<open>Absent sequences and the two keys\<close>

text \<open>
  The key of the test file is the key of the build script on every token whose
  \<^verbatim>\<open>chainId\<close> is not \<open>0\<close>, and the classifier reads the key on the tokens of the
  records only.
\<close>

lemma analyzeChange_missing_before:
  "analyzeChange key (c\<lparr>before := None\<rparr>) f = analyzeChange key (c\<lparr>before := Some []\<rparr>) f"
  by (simp add: analyzeChange.simps analyzeModified_def orEmpty_def split: ChangeType.splits)

lemma analyzeChange_missing_after:
  "analyzeChange key (c\<lparr>after := None\<rparr>) f = analyzeChange key (c\<lparr>after := Some []\<rparr>) f"
  by (simp add: analyzeChange.simps analyzeModified_def orEmpty_def split: ChangeType.splits)

lemma new_Map_snoc: "new_Map (es @ [(k, v)]) = Map_set (new_Map es) k v"
  by (simp add: new_Map_def)

lemma tokenKey_test_eq: "chainId t \<noteq> Some 0 \<Longrightarrow> tokenKey_test t = tokenKey t"
  by (simp add: tokenKey_test_def tokenKey_def split: option.splits)

lemma analyzeChange_key_cong:
  assumes "\<forall>t \<in> set (orEmpty (before c)) \<union> set (orEmpty (after c)). key' t = key t"
  shows "analyzeChange key' c f = analyzeChange key c f"
proof -
  from assms have b: "map (\<lambda>token. (key' token, token)) (orEmpty (before c)) =
      map (\<lambda>token. (key token, token)) (orEmpty (before c))"
    and a: "map (\<lambda>token. (key' token, token)) (orEmpty (after c)) =
      map (\<lambda>token. (key token, token)) (orEmpty (after c))"
    by simp_all
  show ?thesis unfolding analyzeChange.simps analyzeModified_def b a ..
qed

lemma analyzeChanges_key_cong:
  assumes "\<forall>c \<in> set cs. \<forall>t \<in> set (orEmpty (before c)) \<union> set (orEmpty (after c)). key' t = key t"
  shows "analyzeChanges key' cs f = analyzeChanges key cs f"
  using assms
proof (induction cs arbitrary: f)
  case Nil
  then show ?case by simp
next
  case (Cons c cs)
  then have "analyzeChange key' c f = analyzeChange key c f"
    by (intro analyzeChange_key_cong) simp
  with Cons show ?case by simp
qed

lemma classifiers_agree_without_zero:
  assumes "\<forall>c \<in> set changes. \<forall>t \<in> set (orEmpty (before c)) \<union> set (orEmpty (after c)).
      chainId t \<noteq> Some 0"
  shows "determineVersionIncrement_test changes = determineVersionIncrement changes"
proof -
  from assms have "\<forall>c \<in> set changes. \<forall>t \<in> set (orEmpty (before c)) \<union> set (orEmpty (after c)).
      tokenKey_test t = tokenKey t"
    by (simp add: tokenKey_test_eq)
  then have "analyzeChanges tokenKey_test changes initFlags = analyzeChanges tokenKey changes initFlags"
    by (rule analyzeChanges_key_cong)
  then show ?thesis
    by (simp add: determineVersionIncrement_test_def determineVersionIncrement_def classify_def)
qed

subsection \<open>The key and the pair of address and chainId\<close>

text \<open>
  Among tokens whose \<^verbatim>\<open>chainId\<close> is absent or not negative, the key of the build script is
  the same for two tokens only when their address and their \<^verbatim>\<open>chainId\<close> are: the numeral
  has no minus sign, so the last minus sign of the key ends the address. A negative
  \<^verbatim>\<open>chainId\<close> can make two such pairs collide.
\<close>

lemma of_char_digitChar: "d < 10 \<Longrightarrow> (of_char (digitChar d) :: nat) = 48 + d"
  by (simp add: digitChar_def)

lemma showNat_chars: "c \<in> set (showNat n) \<Longrightarrow> 48 \<le> (of_char c :: nat) \<and> (of_char c :: nat) < 58"
proof (induction n rule: showNat.induct)
  case (1 n)
  show ?case
  proof (cases "n < 10")
    case True
    with 1(2) have "c = digitChar n" by (simp add: showNat.simps [of n])
    with True show ?thesis by (simp add: of_char_digitChar)
  next
    case False
    with 1(2) have "c \<in> set (showNat (n div 10)) \<or> c = digitChar (n mod 10)"
      by (auto simp: showNat.simps [of n])
    then show ?thesis
    proof
      assume "c \<in> set (showNat (n div 10))"
      with False 1(1) show ?thesis by blast
    next
      assume "c = digitChar (n mod 10)"
      then show ?thesis by (simp add: of_char_digitChar)
    qed
  qed
qed

lemma readNat_showNat: "readNat (showNat n) = n"
proof (induction n rule: showNat.induct)
  case (1 n)
  show ?case
  proof (cases "n < 10")
    case True
    then show ?thesis by (simp add: showNat.simps [of n] readNat_def of_char_digitChar)
  next
    case False
    with 1 have "readNat (showNat (n div 10)) = n div 10" by simp
    with False show ?thesis
      by (simp add: showNat.simps [of n] readNat_def of_char_digitChar)
  qed
qed

lemma showNat_inj: "showNat n = showNat m \<Longrightarrow> n = m"
proof -
  assume "showNat n = showNat m"
  then have "readNat (showNat n) = readNat (showNat m)" by (rule arg_cong)
  then show "n = m" by (simp only: readNat_showNat)
qed

lemma showNat_no_minus: "CHR ''-'' \<notin> set (showNat n)"
  using showNat_chars [of "CHR ''-''" n] by auto

lemma showNat_not_undefined: "showNat n \<noteq> ''undefined''"
proof
  assume "showNat n = ''undefined''"
  then have "CHR ''u'' \<in> set (showNat n)" by simp
  then show False using showNat_chars [of "CHR ''u''" n] by simp
qed

lemma split_at_last_minus:
  assumes "s1 @ CHR ''-'' # r1 = s2 @ CHR ''-'' # r2"
    and "CHR ''-'' \<notin> set r1" and "CHR ''-'' \<notin> set r2"
  shows "s1 = s2 \<and> r1 = r2"
proof -
  have "takeWhile (\<lambda>c. c \<noteq> CHR ''-'') (rev (s @ CHR ''-'' # r)) = rev r"
    if "CHR ''-'' \<notin> set r" for s r :: string
    using that by (auto simp: takeWhile_tail takeWhile_eq_all_conv)
  with assms have "rev r1 = rev r2" by metis
  then have "r1 = r2" by simp
  with assms(1) show ?thesis by simp
qed

lemma showInt_inj_nonneg: "0 \<le> i \<Longrightarrow> 0 \<le> j \<Longrightarrow> showInt i = showInt j \<Longrightarrow> i = j"
proof -
  assume ij: "0 \<le> i" "0 \<le> j" and "showInt i = showInt j"
  then have "showNat (nat i) = showNat (nat j)" by (simp add: showInt_def)
  then have "nat i = nat j" by (rule showNat_inj)
  with ij show "i = j" by simp
qed

lemma chainIdText_no_minus:
  "(\<forall>n. c = Some n \<longrightarrow> 0 \<le> n) \<Longrightarrow> CHR ''-'' \<notin> set (chainIdText c)"
  by (cases c) (simp_all add: chainIdText_def showInt_def showNat_no_minus)

lemma chainIdText_inj:
  assumes "\<forall>n. c = Some n \<longrightarrow> 0 \<le> n" "\<forall>n. c' = Some n \<longrightarrow> 0 \<le> n"
    and "chainIdText c = chainIdText c'"
  shows "c = c'"
proof (cases c)
  case None
  with assms show ?thesis
    using showNat_not_undefined by (cases c') (auto simp: chainIdText_def showInt_def)
next
  case (Some n)
  show ?thesis
  proof (cases c')
    case None
    with Some assms show ?thesis
      using showNat_not_undefined [of "nat n"] by (auto simp: chainIdText_def showInt_def)
  next
    case (Some m)
    with \<open>c = Some n\<close> assms have "showInt n = showInt m" "0 \<le> n" "0 \<le> m"
      by (simp_all add: chainIdText_def)
    then have "n = m" using showInt_inj_nonneg by blast
    with Some \<open>c = Some n\<close> show ?thesis by simp
  qed
qed

lemma tokenKey_inj:
  assumes "tokenKey t = tokenKey t'"
    and "\<forall>n. chainId t = Some n \<longrightarrow> 0 \<le> n"
    and "\<forall>n. chainId t' = Some n \<longrightarrow> 0 \<le> n"
  shows "address t = address t' \<and> chainId t = chainId t'"
proof -
  from assms(1) have "address t @ CHR ''-'' # chainIdText (chainId t) =
      address t' @ CHR ''-'' # chainIdText (chainId t')"
    by (simp add: tokenKey_def chainIdText_def)
  then have "address t = address t' \<and> chainIdText (chainId t) = chainIdText (chainId t')"
    using chainIdText_no_minus [OF assms(2)] chainIdText_no_minus [OF assms(3)]
    by (rule split_at_last_minus)
  with assms(2,3) show ?thesis using chainIdText_inj by blast
qed

lemma tokenKey_collision:
  "tokenKey \<lparr>address = ''0x1-'', chainId = Some 1, name = n, symbol = s, decimals = d, logoURI = l\<rparr> =
   tokenKey \<lparr>address = ''0x1'', chainId = Some (- 1), name = n', symbol = s', decimals = d', logoURI = l'\<rparr>"
  by (simp add: tokenKey_def showInt_def showNat.simps [of 1])

subsection \<open>What makes a record set a flag\<close>

lemma lastByKey_mem: "t \<in> set ts \<Longrightarrow> \<exists>b. lastByKey key ts (key t) = Some b"
  using lastByKey_None_iff [of key ts "key t"] by (cases "lastByKey key ts (key t)") auto

lemma ex_key_iff_ex_token:
  "(\<exists>k b. lastByKey key bs k = Some b \<and> P k b) =
   (\<exists>t \<in> set bs. case lastByKey key bs (key t) of None \<Rightarrow> False | Some b \<Rightarrow> P (key t) b)"
proof
  assume "\<exists>k b. lastByKey key bs k = Some b \<and> P k b"
  then obtain k b where kb: "lastByKey key bs k = Some b" "P k b" by blast
  then have "b \<in> set bs \<and> key b = k" by (simp add: lastByKey_SomeD)
  with kb show "\<exists>t \<in> set bs. case lastByKey key bs (key t) of None \<Rightarrow> False | Some b \<Rightarrow> P (key t) b"
    by (intro bexI [of _ b]) simp_all
next
  assume "\<exists>t \<in> set bs. case lastByKey key bs (key t) of None \<Rightarrow> False | Some b \<Rightarrow> P (key t) b"
  then obtain t where "t \<in> set bs"
    and "case lastByKey key bs (key t) of None \<Rightarrow> False | Some b \<Rightarrow> P (key t) b" by blast
  then show "\<exists>k b. lastByKey key bs k = Some b \<and> P k b"
    by (cases "lastByKey key bs (key t)") auto
qed

lemma analyzeChange_setsMajor:
  "hasMajorChange (analyzeChange key c initFlags) = setsMajor key c"
proof (cases "type c")
  case modified
  have "(\<exists>k b. lastByKey key (orEmpty (before c)) k = Some b \<and>
         (case lastByKey key (orEmpty (after c)) k of None \<Rightarrow> True | Some a \<Rightarrow> idDiff b a)) =
      (\<exists>t \<in> set (orEmpty (before c)).
         case lastByKey key (orEmpty (before c)) (key t) of
           None \<Rightarrow> False
         | Some b \<Rightarrow>
             (case lastByKey key (orEmpty (after c)) (key t) of None \<Rightarrow> True | Some a \<Rightarrow> idDiff b a))"
    by (rule ex_key_iff_ex_token)
  also have "\<dots> =
      (\<exists>t \<in> set (orEmpty (before c)).
         case lastByKey key (orEmpty (after c)) (key t) of
           None \<Rightarrow> True
         | Some a \<Rightarrow>
             (case lastByKey key (orEmpty (before c)) (key t) of None \<Rightarrow> False | Some b \<Rightarrow> idDiff b a))"
  proof (intro bex_cong refl)
    fix t assume "t \<in> set (orEmpty (before c))"
    then obtain b where "lastByKey key (orEmpty (before c)) (key t) = Some b"
      using lastByKey_mem by blast
    then show "(case lastByKey key (orEmpty (before c)) (key t) of
           None \<Rightarrow> False
         | Some b \<Rightarrow>
             (case lastByKey key (orEmpty (after c)) (key t) of None \<Rightarrow> True | Some a \<Rightarrow> idDiff b a)) =
        (case lastByKey key (orEmpty (after c)) (key t) of
           None \<Rightarrow> True
         | Some a \<Rightarrow>
             (case lastByKey key (orEmpty (before c)) (key t) of None \<Rightarrow> False | Some b \<Rightarrow> idDiff b a))"
      by (simp split: option.splits)
  qed
  finally show ?thesis
    using modified by (simp add: analyzeChange.simps analyzeModified_major setsMajor_def)
qed (simp_all add: analyzeChange.simps setsMajor_def)

lemma analyzeChange_setsMinor:
  "hasMinorChange (analyzeChange key c initFlags) = setsMinor key c"
proof (cases "type c")
  case modified
  have "(\<exists>k a. lastByKey key (orEmpty (after c)) k = Some a \<and>
         lastByKey key (orEmpty (before c)) k = None) =
      (\<exists>t \<in> set (orEmpty (after c)).
         case lastByKey key (orEmpty (after c)) (key t) of
           None \<Rightarrow> False
         | Some a \<Rightarrow> lastByKey key (orEmpty (before c)) (key t) = None)"
    by (rule ex_key_iff_ex_token)
  also have "\<dots> =
      (\<exists>t \<in> set (orEmpty (after c)). lastByKey key (orEmpty (before c)) (key t) = None)"
  proof (intro bex_cong refl)
    fix t assume "t \<in> set (orEmpty (after c))"
    then obtain a where "lastByKey key (orEmpty (after c)) (key t) = Some a"
      using lastByKey_mem by blast
    then show "(case lastByKey key (orEmpty (after c)) (key t) of
           None \<Rightarrow> False
         | Some a \<Rightarrow> lastByKey key (orEmpty (before c)) (key t) = None) =
        (lastByKey key (orEmpty (before c)) (key t) = None)"
      by simp
  qed
  finally show ?thesis
    using modified by (simp add: analyzeChange.simps analyzeModified_minor setsMinor_def)
qed (simp_all add: analyzeChange.simps setsMinor_def)

lemma analyzeChange_setsPatch:
  assumes "\<not> setsMajor key c"
  shows "hasPatchChange (analyzeChange key c initFlags) = setsPatch key c"
proof (cases "type c")
  case modified
  from assms have no: "\<not> hasMajorChange (analyzeModified key c initFlags)"
    using modified analyzeChange_setsMajor [of key c] by (simp add: analyzeChange.simps)
  have "(\<exists>k b a. lastByKey key (orEmpty (before c)) k = Some b \<and>
         lastByKey key (orEmpty (after c)) k = Some a \<and> fieldDiff b a) =
      (\<exists>k b. lastByKey key (orEmpty (before c)) k = Some b \<and>
         (case lastByKey key (orEmpty (after c)) k of None \<Rightarrow> False | Some a \<Rightarrow> fieldDiff b a))"
    by (auto split: option.splits)
  also have "\<dots> =
      (\<exists>t \<in> set (orEmpty (before c)).
         case lastByKey key (orEmpty (before c)) (key t) of
           None \<Rightarrow> False
         | Some b \<Rightarrow>
             (case lastByKey key (orEmpty (after c)) (key t) of None \<Rightarrow> False | Some a \<Rightarrow> fieldDiff b a))"
    by (rule ex_key_iff_ex_token)
  also have "\<dots> =
      (\<exists>t \<in> set (orEmpty (before c)).
         case lastByKey key (orEmpty (after c)) (key t) of
           None \<Rightarrow> False
         | Some a \<Rightarrow>
             (case lastByKey key (orEmpty (before c)) (key t) of None \<Rightarrow> False | Some b \<Rightarrow> fieldDiff b a))"
    by (intro bex_cong refl) (auto split: option.splits)
  finally show ?thesis
    using modified by (simp add: analyzeChange.simps analyzeModified_patch [OF no] setsPatch_def)
next
  case added
  then show ?thesis by (simp add: analyzeChange.simps setsPatch_def)
next
  case deleted
  then show ?thesis by (simp add: analyzeChange.simps setsPatch_def)
qed

lemma flags_of_list:
  "hasMajorChange (analyzeChanges key changes initFlags) = (\<exists>c \<in> set changes. setsMajor key c)"
  "hasMinorChange (analyzeChanges key changes initFlags) = (\<exists>c \<in> set changes. setsMinor key c)"
  "\<not> hasMajorChange (analyzeChanges key changes initFlags) \<Longrightarrow>
   hasPatchChange (analyzeChanges key changes initFlags) = (\<exists>c \<in> set changes. setsPatch key c)"
proof -
  show major: "hasMajorChange (analyzeChanges key changes initFlags) =
      (\<exists>c \<in> set changes. setsMajor key c)"
    by (simp add: analyzeChanges_major analyzeChange_setsMajor)
  show "hasMinorChange (analyzeChanges key changes initFlags) =
      (\<exists>c \<in> set changes. setsMinor key c)"
    by (simp add: analyzeChanges_minor analyzeChange_setsMinor)
  assume "\<not> hasMajorChange (analyzeChanges key changes initFlags)"
  with major have "\<forall>c \<in> set changes. \<not> setsMajor key c" by simp
  then have "\<forall>c \<in> set changes. hasPatchChange (analyzeChange key c initFlags) = setsPatch key c"
    by (simp add: analyzeChange_setsPatch)
  then show "hasPatchChange (analyzeChanges key changes initFlags) =
      (\<exists>c \<in> set changes. setsPatch key c)"
    by (simp add: analyzeChanges_patch)
qed

subsection \<open>The run never fails\<close>

text \<open>
  Behind the guard the receiver of \<^verbatim>\<open>map\<close> is an array, so that the run of the classifier
  is the value that the functions above compute.
\<close>

lemma Array_map_guarded:
  "Array_map g (orEmptyArray x) = Inr (map g (orEmpty x))"
  by (simp add: Array_map_def orEmptyArray_def orEmpty_def split: option.splits)

lemma analyzeModified_run_eq: "analyzeModified_run key c f = Inr (analyzeModified key c f)"
  by (simp add: analyzeModified_run_def analyzeModified_def Array_map_guarded Let_def)

lemma analyzeChange_run_eq: "analyzeChange_run key c f = Inr (analyzeChange key c f)"
  by (simp add: analyzeChange_run_def analyzeChange.simps analyzeModified_run_eq
      split: ChangeType.splits)

lemma analyzeChanges_run_eq: "analyzeChanges_run key cs f = Inr (analyzeChanges key cs f)"
  by (induction cs arbitrary: f) (simp_all add: analyzeChange_run_eq)

lemma determineVersionIncrement_run_eq:
  "determineVersionIncrement_run changes = Inr (determineVersionIncrement changes)"
  by (simp add: determineVersionIncrement_run_def determineVersionIncrement_def classify_def
      analyzeChanges_run_eq)

lemma analyzeModified_unguarded_fails:
  "before c = None \<or> after c = None \<Longrightarrow> analyzeModified_unguarded key c f = Inl TypeError"
  by (auto simp: analyzeModified_unguarded_def Array_map_def split: option.splits)

subsection \<open>Adding one to a number\<close>

text \<open>Below \<open>2^53\<close> in magnitude the addition of \<open>1\<close> is exact; at \<open>2^53\<close> it is lost.\<close>

lemma ulp_small: "m < 9007199254740992 \<Longrightarrow> ulp m = 1"
  by (simp add: ulp.simps [of m])

lemma ulp_2_53: "ulp 9007199254740992 = 2"
  by (simp add: ulp.simps [of 9007199254740992] ulp_small)

lemma ulp_2_53_1: "ulp 9007199254740993 = 2"
  by (simp add: ulp.simps [of 9007199254740993] ulp_small)

lemma toNumber_below:
  assumes "\<bar>x\<bar> < 9007199254740992"
  shows "toNumber x = x"
proof -
  from assms have "nat \<bar>x\<bar> < 9007199254740992" by linarith
  then have u: "ulp (nat \<bar>x\<bar>) = 1" by (rule ulp_small)
  have "toNumber x = sgn x * int (nat \<bar>x\<bar>)"
    unfolding toNumber_def Let_def u by simp
  also have "\<dots> = sgn x * \<bar>x\<bar>" by simp
  also have "\<dots> = x" by (rule mult_sgn_abs)
  finally show ?thesis .
qed

lemma toNumber_at:
  assumes "\<bar>x\<bar> = 9007199254740992"
  shows "toNumber x = x"
proof -
  from assms have n: "nat \<bar>x\<bar> = 9007199254740992" by linarith
  have "toNumber x = sgn x * 9007199254740992"
    unfolding toNumber_def Let_def n ulp_2_53 by simp
  also have "\<dots> = sgn x * \<bar>x\<bar>" by (simp only: assms)
  also have "\<dots> = x" by (rule mult_sgn_abs)
  finally show ?thesis .
qed

lemma toNumber_exact: "\<bar>x\<bar> \<le> 9007199254740992 \<Longrightarrow> toNumber x = x"
  using toNumber_below [of x] toNumber_at [of x] by linarith

lemma numberAdd_exact: "\<bar>n\<bar> < 9007199254740992 \<Longrightarrow> numberAdd n 1 = n + 1"
  unfolding numberAdd_def by (rule toNumber_exact) linarith

lemma numberAdd_2_53: "numberAdd 9007199254740992 1 = 9007199254740992"
  by (simp add: numberAdd_def toNumber_def Let_def ulp_2_53_1)

section \<open>The claims\<close>

text \<open>
  C1. For every change list the verdict is one of the four values major, minor, patch and
  none. After the loop the major flag is set exactly when some record of the list sets it (a
  \<open>deleted\<close> record, or a \<open>modified\<close> one with a removed or re-identified token), the
  minor flag exactly when some record sets it (an \<open>added\<close> record, or a \<open>modified\<close> one
  with an added token), and, when the major flag is unset, the patch flag exactly when some
  record has a token with a changed field. The verdict is resolved from the flags by strict
  priority: major when the major flag is set, else minor when the minor flag is set, else
  patch when the patch flag is set, else none.
\<close>

theorem verdict_by_priority:
  "determineVersionIncrement changes \<in> {Some Major, Some Minor, Some Patch, None} \<and>
   hasMajorChange (analyzeChanges tokenKey changes initFlags) =
     (\<exists>c \<in> set changes. setsMajor tokenKey c) \<and>
   hasMinorChange (analyzeChanges tokenKey changes initFlags) =
     (\<exists>c \<in> set changes. setsMinor tokenKey c) \<and>
   (\<not> hasMajorChange (analyzeChanges tokenKey changes initFlags) \<longrightarrow>
      hasPatchChange (analyzeChanges tokenKey changes initFlags) =
        (\<exists>c \<in> set changes. setsPatch tokenKey c)) \<and>
   determineVersionIncrement changes =
     (if \<exists>c \<in> set changes. setsMajor tokenKey c then Some Major
      else if \<exists>c \<in> set changes. setsMinor tokenKey c then Some Minor
      else if \<exists>c \<in> set changes. setsPatch tokenKey c then Some Patch
      else None)"
proof (intro conjI impI)
  show "determineVersionIncrement changes \<in> {Some Major, Some Minor, Some Patch, None}"
    unfolding determineVersionIncrement_def by (rule classify_range)
  show "hasMajorChange (analyzeChanges tokenKey changes initFlags) =
     (\<exists>c \<in> set changes. setsMajor tokenKey c)"
    by (rule flags_of_list)
  show "hasMinorChange (analyzeChanges tokenKey changes initFlags) =
     (\<exists>c \<in> set changes. setsMinor tokenKey c)"
    by (rule flags_of_list)
  show "hasPatchChange (analyzeChanges tokenKey changes initFlags) =
        (\<exists>c \<in> set changes. setsPatch tokenKey c)"
    if "\<not> hasMajorChange (analyzeChanges tokenKey changes initFlags)"
    using that by (rule flags_of_list)
  show "determineVersionIncrement changes =
     (if \<exists>c \<in> set changes. setsMajor tokenKey c then Some Major
      else if \<exists>c \<in> set changes. setsMinor tokenKey c then Some Minor
      else if \<exists>c \<in> set changes. setsPatch tokenKey c then Some Patch
      else None)"
  proof (cases "hasMajorChange (analyzeChanges tokenKey changes initFlags)")
    case True
    then show ?thesis
      using flags_of_list(1) [of tokenKey changes]
      by (simp add: determineVersionIncrement_def classify_def resolveFlags_def)
  next
    case False
    then show ?thesis
      using flags_of_list(1) [of tokenKey changes] flags_of_list(2) [of tokenKey changes]
        flags_of_list(3) [of tokenKey changes]
      by (simp add: determineVersionIncrement_def classify_def resolveFlags_def)
  qed
qed

text \<open>
  The witness: an added and a deleted file together give major, and a record that adds
  \<open>newToken\<close> while it renames \<open>testToken\<close> sets the minor and the patch flag and gives
  minor.
\<close>

theorem verdict_by_priority_witness:
  "setsMinor tokenKey addedFile \<and> setsMajor tokenKey deletedFile \<and>
   determineVersionIncrement [addedFile, deletedFile] = Some Major \<and>
   \<not> hasMajorChange (analyzeChanges tokenKey
      [modifiedFile [testToken] [testToken\<lparr>name := ''Test Updated''\<rparr>, newToken]] initFlags) \<and>
   hasMinorChange (analyzeChanges tokenKey
      [modifiedFile [testToken] [testToken\<lparr>name := ''Test Updated''\<rparr>, newToken]] initFlags) \<and>
   hasPatchChange (analyzeChanges tokenKey
      [modifiedFile [testToken] [testToken\<lparr>name := ''Test Updated''\<rparr>, newToken]] initFlags) \<and>
   determineVersionIncrement
     [modifiedFile [testToken] [testToken\<lparr>name := ''Test Updated''\<rparr>, newToken]] = Some Minor"
proof -
  let ?m = "modifiedFile [testToken] [testToken\<lparr>name := ''Test Updated''\<rparr>, newToken]"
  have a: "setsMinor tokenKey addedFile" by (simp add: setsMinor_def addedFile_def)
  have d: "setsMajor tokenKey deletedFile" by (simp add: setsMajor_def deletedFile_def)
  have nd: "\<not> setsMajor tokenKey addedFile" by (simp add: setsMajor_def addedFile_def)
  have keys: "tokenKey testToken = ''0x123-undefined''" "tokenKey newToken = ''0x456-undefined''"
    "tokenKey (testToken\<lparr>name := ''Test Updated''\<rparr>) = ''0x123-undefined''"
    by (simp_all add: tokenKey_def testToken_def newToken_def)
  have M: "\<not> setsMajor tokenKey ?m"
    by (simp add: setsMajor_def modifiedFile_def orEmpty_def lastByKey_def keys idDiff_def)
  have m: "setsMinor tokenKey ?m"
    by (simp add: setsMinor_def modifiedFile_def orEmpty_def lastByKey_def keys)
  have fd: "fieldDiff testToken (testToken\<lparr>name := ''Test Updated''\<rparr>)"
    by (simp add: fieldDiff_def testToken_def)
  have p: "setsPatch tokenKey ?m"
    by (simp add: setsPatch_def modifiedFile_def orEmpty_def lastByKey_def keys fd)
  from verdict_by_priority [of "[addedFile, deletedFile]"] d
  have 1: "determineVersionIncrement [addedFile, deletedFile] = Some Major" by simp
  from verdict_by_priority [of "[?m]"] M m p
  have 2: "\<not> hasMajorChange (analyzeChanges tokenKey [?m] initFlags)"
    "hasMinorChange (analyzeChanges tokenKey [?m] initFlags)"
    "hasPatchChange (analyzeChanges tokenKey [?m] initFlags)"
    "determineVersionIncrement [?m] = Some Minor"
    by simp_all
  from a d 1 2 show ?thesis by blast
qed

text \<open>
  C2, as the code has it. Within a change list, replacing a record by one of the same type
  whose \<open>before\<close> and \<open>after\<close> hold the same tokens in another order leaves the
  verdict unchanged, provided that in neither sequence two different tokens have the same
  key. (The map keeps the last token written under a key, so that among tokens that share a
  key the order decides which one is compared.)
\<close>

theorem permuted_tokens_same_verdict:
  assumes "type c' = type c"
    and "mset (orEmpty (before c')) = mset (orEmpty (before c))"
    and "mset (orEmpty (after c')) = mset (orEmpty (after c))"
    and "inj_on tokenKey (set (orEmpty (before c)))"
    and "inj_on tokenKey (set (orEmpty (after c)))"
  shows "determineVersionIncrement (pre @ c' # post) = determineVersionIncrement (pre @ c # post)"
proof -
  from assms(2) have "set (orEmpty (before c')) = set (orEmpty (before c))" by (rule mset_eq_setD)
  then have b: "lastByKey tokenKey (orEmpty (before c')) = lastByKey tokenKey (orEmpty (before c))"
    using assms(4) by (rule lastByKey_cong_set)
  from assms(3) have "set (orEmpty (after c')) = set (orEmpty (after c))" by (rule mset_eq_setD)
  then have a: "lastByKey tokenKey (orEmpty (after c')) = lastByKey tokenKey (orEmpty (after c))"
    using assms(5) by (rule lastByKey_cong_set)
  show ?thesis
    unfolding determineVersionIncrement_def
    by (rule classify_cong) (rule analyzeChange_cong [OF assms(1) b a]; assumption?)+
qed

text \<open>
  The claim as stated fails: \<open>testToken\<close> and a token of the same key and another name,
  in the two orders, against an \<open>after\<close> that holds \<open>testToken\<close>, give none and patch.
\<close>

theorem permuted_tokens_counterexample:
  "mset [testToken, testToken\<lparr>name := ''Old''\<rparr>] = mset [testToken\<lparr>name := ''Old''\<rparr>, testToken] \<and>
   determineVersionIncrement [modifiedFile [testToken\<lparr>name := ''Old''\<rparr>, testToken] [testToken]] = None \<and>
   determineVersionIncrement [modifiedFile [testToken, testToken\<lparr>name := ''Old''\<rparr>] [testToken]] = Some Patch"
proof (intro conjI)
  show "mset [testToken, testToken\<lparr>name := ''Old''\<rparr>] = mset [testToken\<lparr>name := ''Old''\<rparr>, testToken]"
    by (simp add: add_mset_commute)
  show "determineVersionIncrement [modifiedFile [testToken\<lparr>name := ''Old''\<rparr>, testToken] [testToken]] = None"
    by code_simp
  show "determineVersionIncrement [modifiedFile [testToken, testToken\<lparr>name := ''Old''\<rparr>] [testToken]] = Some Patch"
    by code_simp
qed

text \<open>
  The witness: \<open>testToken\<close> and \<open>newToken\<close> in both orders, after a deleted file.
\<close>

theorem permuted_tokens_same_verdict_witness:
  "type (modifiedFile [newToken, testToken] [testToken, newToken]) =
     type (modifiedFile [testToken, newToken] [newToken, testToken]) \<and>
   mset (orEmpty (before (modifiedFile [newToken, testToken] [testToken, newToken]))) =
     mset (orEmpty (before (modifiedFile [testToken, newToken] [newToken, testToken]))) \<and>
   mset (orEmpty (after (modifiedFile [newToken, testToken] [testToken, newToken]))) =
     mset (orEmpty (after (modifiedFile [testToken, newToken] [newToken, testToken]))) \<and>
   inj_on tokenKey (set (orEmpty (before (modifiedFile [testToken, newToken] [newToken, testToken])))) \<and>
   inj_on tokenKey (set (orEmpty (after (modifiedFile [testToken, newToken] [newToken, testToken])))) \<and>
   determineVersionIncrement ([deletedFile] @ modifiedFile [newToken, testToken] [testToken, newToken] # []) =
     determineVersionIncrement ([deletedFile] @ modifiedFile [testToken, newToken] [newToken, testToken] # [])"
proof -
  let ?c' = "modifiedFile [newToken, testToken] [testToken, newToken]"
  let ?c = "modifiedFile [testToken, newToken] [newToken, testToken]"
  have 1: "type ?c' = type ?c" by (simp add: modifiedFile_def)
  have 2: "mset (orEmpty (before ?c')) = mset (orEmpty (before ?c))"
    by (simp add: modifiedFile_def orEmpty_def add_mset_commute)
  have 3: "mset (orEmpty (after ?c')) = mset (orEmpty (after ?c))"
    by (simp add: modifiedFile_def orEmpty_def add_mset_commute)
  have 4: "inj_on tokenKey (set (orEmpty (before ?c)))"
    by (simp add: modifiedFile_def orEmpty_def tokenKey_def testToken_def newToken_def)
  have 5: "inj_on tokenKey (set (orEmpty (after ?c)))"
    by (simp add: modifiedFile_def orEmpty_def tokenKey_def testToken_def newToken_def)
  from 1 2 3 4 5 permuted_tokens_same_verdict [OF 1 2 3 4 5, of "[deletedFile]" "[]"]
  show ?thesis by blast
qed

text \<open>
  C3. The verdict of a change list is the highest verdict that any of its records yields on
  its own, it is the same for every order of the records, and two records of which one alone
  yields minor and the other alone yields patch together yield minor.
\<close>

theorem verdict_highest_of_records:
  "determineVersionIncrement changes =
     highest (map (\<lambda>change. determineVersionIncrement [change]) changes) \<and>
   (\<forall>changes'. mset changes' = mset changes \<longrightarrow>
      determineVersionIncrement changes' = determineVersionIncrement changes) \<and>
   (\<forall>c1 c2. determineVersionIncrement [c1] = Some Minor \<and>
        determineVersionIncrement [c2] = Some Patch \<longrightarrow>
      determineVersionIncrement [c1, c2] = Some Minor \<and>
      determineVersionIncrement [c2, c1] = Some Minor)"
proof (intro conjI allI impI)
  show "determineVersionIncrement changes =
     highest (map (\<lambda>change. determineVersionIncrement [change]) changes)"
    unfolding determineVersionIncrement_def by (rule classify_highest)
next
  fix changes' assume "mset changes' = mset changes"
  then have "set changes' = set changes" by (rule mset_eq_setD)
  then show "determineVersionIncrement changes' = determineVersionIncrement changes"
    unfolding determineVersionIncrement_def by (rule classify_set)
next
  fix c1 c2
  assume "determineVersionIncrement [c1] = Some Minor \<and> determineVersionIncrement [c2] = Some Patch"
  then show "determineVersionIncrement [c1, c2] = Some Minor"
    unfolding determineVersionIncrement_def using classify_pair(1) by blast
next
  fix c1 c2
  assume "determineVersionIncrement [c1] = Some Minor \<and> determineVersionIncrement [c2] = Some Patch"
  then show "determineVersionIncrement [c2, c1] = Some Minor"
    unfolding determineVersionIncrement_def using classify_pair(2) by blast
qed

text \<open>
  The witness: a record that adds \<open>newToken\<close> and a record that renames \<open>testToken\<close>, in
  both orders.
\<close>

theorem verdict_highest_of_records_witness:
  "mset [modifiedFile [testToken] [testToken\<lparr>name := ''Test Updated''\<rparr>], modifiedFile [] [newToken]] =
     mset [modifiedFile [] [newToken], modifiedFile [testToken] [testToken\<lparr>name := ''Test Updated''\<rparr>]] \<and>
   determineVersionIncrement [modifiedFile [] [newToken]] = Some Minor \<and>
   determineVersionIncrement [modifiedFile [testToken] [testToken\<lparr>name := ''Test Updated''\<rparr>]] = Some Patch \<and>
   determineVersionIncrement
     [modifiedFile [] [newToken], modifiedFile [testToken] [testToken\<lparr>name := ''Test Updated''\<rparr>]] =
     Some Minor \<and>
   determineVersionIncrement
     [modifiedFile [testToken] [testToken\<lparr>name := ''Test Updated''\<rparr>], modifiedFile [] [newToken]] =
     determineVersionIncrement
       [modifiedFile [] [newToken], modifiedFile [testToken] [testToken\<lparr>name := ''Test Updated''\<rparr>]]"
proof -
  let ?a = "modifiedFile [] [newToken]"
  let ?p = "modifiedFile [testToken] [testToken\<lparr>name := ''Test Updated''\<rparr>]"
  have m: "mset [?p, ?a] = mset [?a, ?p]" by (simp add: add_mset_commute)
  have a: "determineVersionIncrement [?a] = Some Minor" by code_simp
  have p: "determineVersionIncrement [?p] = Some Patch" by code_simp
  from verdict_highest_of_records [of "[?a, ?p]"]
  have perm: "\<forall>changes'. mset changes' = mset [?a, ?p] \<longrightarrow>
      determineVersionIncrement changes' = determineVersionIncrement [?a, ?p]"
    and pair: "\<forall>c1 c2. determineVersionIncrement [c1] = Some Minor \<and>
        determineVersionIncrement [c2] = Some Patch \<longrightarrow>
      determineVersionIncrement [c1, c2] = Some Minor \<and>
      determineVersionIncrement [c2, c1] = Some Minor"
    by blast+
  from perm m have 1: "determineVersionIncrement [?p, ?a] = determineVersionIncrement [?a, ?p]"
    by blast
  from pair a p have 2: "determineVersionIncrement [?a, ?p] = Some Minor" by blast
  from m a p 1 2 show ?thesis by blast
qed

text \<open>
  C4. The build script and the test file do not classify every change list alike: a record
  that only reorders a token with \<^verbatim>\<open>chainId: 0\<close> and a token of the same address without
  \<^verbatim>\<open>chainId\<close> is no change for the build script, and a major change for the classifier of
  the test file, whose key replaces \<open>0\<close> by \<^verbatim>\<open>undefined\<close>. (Lemma
  \<open>classifiers_agree_without_zero\<close>: they agree on lists without a \<^verbatim>\<open>chainId\<close> of
  \<open>0\<close>.)
\<close>

theorem classifiers_differ_at_chainId_zero:
  "determineVersionIncrement
     [modifiedFile [testToken\<lparr>chainId := Some 0\<rparr>, testToken] [testToken, testToken\<lparr>chainId := Some 0\<rparr>]] =
     None \<and>
   determineVersionIncrement_test
     [modifiedFile [testToken\<lparr>chainId := Some 0\<rparr>, testToken] [testToken, testToken\<lparr>chainId := Some 0\<rparr>]] =
     Some Major"
proof (intro conjI)
  show "determineVersionIncrement
     [modifiedFile [testToken\<lparr>chainId := Some 0\<rparr>, testToken] [testToken, testToken\<lparr>chainId := Some 0\<rparr>]] =
     None"
    by code_simp
  show "determineVersionIncrement_test
     [modifiedFile [testToken\<lparr>chainId := Some 0\<rparr>, testToken] [testToken, testToken\<lparr>chainId := Some 0\<rparr>]] =
     Some Major"
    by code_simp
qed

text \<open>
  C5. A change list that holds a record of type \<open>deleted\<close> has the verdict major, whatever
  the record's \<open>before\<close> is, absent and empty included, and whatever the other records are.
\<close>

theorem deleted_record_major:
  "change \<in> set changes \<Longrightarrow> type change = deleted \<Longrightarrow>
   determineVersionIncrement changes = Some Major"
  unfolding determineVersionIncrement_def classify_major_iff
  by (rule bexI [of _ change]) (simp_all add: analyzeChange.simps)

theorem deleted_record_major_witness:
  "deletedFile \<in> set [modifiedFile [] [newToken], deletedFile] \<and> type deletedFile = deleted \<and>
   before deletedFile = None \<and>
   determineVersionIncrement [modifiedFile [] [newToken], deletedFile] = Some Major"
proof -
  have 1: "deletedFile \<in> set [modifiedFile [] [newToken], deletedFile]" by simp
  have 2: "type deletedFile = deleted" by (simp add: deletedFile_def)
  have 3: "before deletedFile = None" by (simp add: deletedFile_def)
  from 1 2 3 deleted_record_major [OF 1 2] show ?thesis by blast
qed

text \<open>
  C6, as the code has it. A single \<open>modified\<close> record yields none when its \<open>after\<close>
  is its \<open>before\<close>, token by token, or when the two hold the same set of tokens and no
  two different tokens of it have the same key string \<^verbatim>\<open>`${address}-${chainId}`\<close>, the
  \<open>tokenKey\<close> that the code builds; so token arrays of pairwise different key strings, in
  another order, yield none. (Different pairs of address and chainId can have the same key
  string, \<open>tokenKey_collision\<close>; they have not when no chainId is negative,
  \<open>tokenKey_inj\<close>.)
\<close>

theorem identical_tokens_none:
  assumes "type c = modified"
    and "orEmpty (after c) = orEmpty (before c) \<or>
         set (orEmpty (after c)) = set (orEmpty (before c)) \<and>
         inj_on tokenKey (set (orEmpty (before c)))"
  shows "determineVersionIncrement [c] = None"
proof -
  from assms(2) have "lastByKey tokenKey (orEmpty (after c)) = lastByKey tokenKey (orEmpty (before c))"
  proof
    assume "orEmpty (after c) = orEmpty (before c)"
    then show ?thesis by simp
  next
    assume "set (orEmpty (after c)) = set (orEmpty (before c)) \<and>
         inj_on tokenKey (set (orEmpty (before c)))"
    then show ?thesis using lastByKey_cong_set [of "orEmpty (after c)" "orEmpty (before c)" tokenKey]
      by blast
  qed
  with assms(1) show ?thesis
    unfolding determineVersionIncrement_def by (rule classify_same_maps)
qed

text \<open>
  The claim as stated fails: the same two tokens, which share a key and differ in the name,
  in the two orders, yield patch.
\<close>

theorem identical_tokens_counterexample:
  "mset [testToken\<lparr>name := ''Old''\<rparr>, testToken] = mset [testToken, testToken\<lparr>name := ''Old''\<rparr>] \<and>
   determineVersionIncrement
     [modifiedFile [testToken, testToken\<lparr>name := ''Old''\<rparr>] [testToken\<lparr>name := ''Old''\<rparr>, testToken]] =
     Some Patch"
proof (intro conjI)
  show "mset [testToken\<lparr>name := ''Old''\<rparr>, testToken] = mset [testToken, testToken\<lparr>name := ''Old''\<rparr>]"
    by (simp add: add_mset_commute)
  show "determineVersionIncrement
     [modifiedFile [testToken, testToken\<lparr>name := ''Old''\<rparr>] [testToken\<lparr>name := ''Old''\<rparr>, testToken]] =
     Some Patch"
    by code_simp
qed

text \<open>
  The witness: \<open>testToken\<close> and \<open>newToken\<close> in two orders, and \<open>testToken\<close>
  twice on both sides.
\<close>

theorem identical_tokens_none_witness:
  "type (modifiedFile [testToken, newToken] [newToken, testToken]) = modified \<and>
   set (orEmpty (after (modifiedFile [testToken, newToken] [newToken, testToken]))) =
     set (orEmpty (before (modifiedFile [testToken, newToken] [newToken, testToken]))) \<and>
   inj_on tokenKey (set (orEmpty (before (modifiedFile [testToken, newToken] [newToken, testToken])))) \<and>
   determineVersionIncrement [modifiedFile [testToken, newToken] [newToken, testToken]] = None \<and>
   type (modifiedFile [testToken, testToken] [testToken, testToken]) = modified \<and>
   orEmpty (after (modifiedFile [testToken, testToken] [testToken, testToken])) =
     orEmpty (before (modifiedFile [testToken, testToken] [testToken, testToken])) \<and>
   determineVersionIncrement [modifiedFile [testToken, testToken] [testToken, testToken]] = None"
proof -
  let ?c = "modifiedFile [testToken, newToken] [newToken, testToken]"
  let ?d = "modifiedFile [testToken, testToken] [testToken, testToken]"
  have 1: "type ?c = modified" by (simp add: modifiedFile_def)
  have 2: "set (orEmpty (after ?c)) = set (orEmpty (before ?c))"
    by (simp add: modifiedFile_def orEmpty_def insert_commute)
  have 3: "inj_on tokenKey (set (orEmpty (before ?c)))"
    by (simp add: modifiedFile_def orEmpty_def tokenKey_def testToken_def newToken_def)
  have 4: "type ?d = modified" by (simp add: modifiedFile_def)
  have 5: "orEmpty (after ?d) = orEmpty (before ?d)" by (simp add: modifiedFile_def orEmpty_def)
  from 2 3 have h: "orEmpty (after ?c) = orEmpty (before ?c) \<or>
      set (orEmpty (after ?c)) = set (orEmpty (before ?c)) \<and> inj_on tokenKey (set (orEmpty (before ?c)))"
    by blast
  from 5 have k: "orEmpty (after ?d) = orEmpty (before ?d) \<or>
      set (orEmpty (after ?d)) = set (orEmpty (before ?d)) \<and> inj_on tokenKey (set (orEmpty (before ?d)))"
    by blast
  from 1 2 3 4 5 identical_tokens_none [OF 1 h] identical_tokens_none [OF 4 k]
  show ?thesis by blast
qed

text \<open>
  C7, as the code has it. A single \<open>modified\<close> record in which one token \<open>t\<close> of
  \<open>before\<close> is replaced in \<open>after\<close> by a token \<open>t'\<close> of another address, whatever
  the other fields of \<open>t'\<close> are, the other tokens being unchanged, yields major, provided
  that no other token of the sequence has the key string \<^verbatim>\<open>`${address}-${chainId}`\<close> of
  \<open>t\<close>, its \<open>tokenKey\<close>.
\<close>

theorem address_change_major:
  assumes "type c = modified"
    and "before c = Some (ts1 @ t # ts2)"
    and "after c = Some (ts1 @ t' # ts2)"
    and "address t' \<noteq> address t"
    and "tokenKey t \<notin> tokenKey ` set (ts1 @ ts2)"
  shows "determineVersionIncrement [c] = Some Major"
proof -
  from assms(5) have n2: "lastByKey tokenKey ts2 (tokenKey t) = None"
    and n1: "lastByKey tokenKey ts1 (tokenKey t) = None"
    by (auto simp: lastByKey_None_iff)
  from n2 have b: "lastByKey tokenKey (orEmpty (before c)) (tokenKey t) = Some t"
    by (simp add: assms(2) orEmpty_def lastByKey_append_Cons)
  from n1 n2 have a: "lastByKey tokenKey (orEmpty (after c)) (tokenKey t) =
      (if tokenKey t' = tokenKey t then Some t' else None)"
    by (simp add: assms(3) orEmpty_def lastByKey_append_Cons)
  from assms(4) have d: "idDiff t t'" by (auto simp: idDiff_def)
  have "\<exists>k b. lastByKey tokenKey (orEmpty (before c)) k = Some b \<and>
         (case lastByKey tokenKey (orEmpty (after c)) k of None \<Rightarrow> True | Some a \<Rightarrow> idDiff b a)"
    by (rule exI [of _ "tokenKey t"], rule exI [of _ t]) (simp add: a b d)
  then show ?thesis
    unfolding determineVersionIncrement_def classify_modified [OF assms(1)] by simp
qed

text \<open>
  The claim as stated fails: when \<open>before\<close> holds \<open>testToken\<close> twice and the address
  of the first one changes, the key is still in \<open>after\<close>, and the verdict is minor.
\<close>

theorem address_change_counterexample:
  "determineVersionIncrement
     [modifiedFile [testToken, testToken] [testToken\<lparr>address := ''0x999''\<rparr>, testToken]] = Some Minor"
  by code_simp

text \<open>
  The witness: between \<open>newToken\<close> and \<open>oldToken\<close>, \<open>testToken\<close> changes its address
  and its name.
\<close>

theorem address_change_major_witness:
  "type (modifiedFile ([newToken] @ testToken # [oldToken])
      ([newToken] @ testToken\<lparr>address := ''0x999'', name := ''Renamed''\<rparr> # [oldToken])) = modified \<and>
   address (testToken\<lparr>address := ''0x999'', name := ''Renamed''\<rparr>) \<noteq> address testToken \<and>
   tokenKey testToken \<notin> tokenKey ` set ([newToken] @ [oldToken]) \<and>
   determineVersionIncrement
     [modifiedFile ([newToken] @ testToken # [oldToken])
        ([newToken] @ testToken\<lparr>address := ''0x999'', name := ''Renamed''\<rparr> # [oldToken])] =
     Some Major"
proof -
  let ?t' = "testToken\<lparr>address := ''0x999'', name := ''Renamed''\<rparr>"
  let ?c = "modifiedFile ([newToken] @ testToken # [oldToken]) ([newToken] @ ?t' # [oldToken])"
  have 1: "type ?c = modified" by (simp add: modifiedFile_def)
  have 2: "before ?c = Some ([newToken] @ testToken # [oldToken])" by (simp add: modifiedFile_def)
  have 3: "after ?c = Some ([newToken] @ ?t' # [oldToken])" by (simp add: modifiedFile_def)
  have 4: "address ?t' \<noteq> address testToken" by (simp add: testToken_def)
  have 5: "tokenKey testToken \<notin> tokenKey ` set ([newToken] @ [oldToken])"
    by (simp add: tokenKey_def testToken_def newToken_def oldToken_def)
  from 1 4 5 address_change_major [OF 1 2 3 4 5] show ?thesis by blast
qed

text \<open>
  C8, as the code has it. A single \<open>modified\<close> record in which one token differs
  between \<open>before\<close> and \<open>after\<close>, in its \<open>decimals\<close> only, yields patch, provided
  that no later token of the sequence has the same key string
  \<^verbatim>\<open>`${address}-${chainId}`\<close>, the \<open>tokenKey\<close> of the changed token.
\<close>

theorem decimals_change_patch:
  assumes "type c = modified"
    and "before c = Some (ts1 @ t # ts2)"
    and "after c = Some (ts1 @ t\<lparr>decimals := d\<rparr> # ts2)"
    and "d \<noteq> decimals t"
    and "tokenKey t \<notin> tokenKey ` set ts2"
  shows "determineVersionIncrement [c] = Some Patch"
proof -
  let ?B = "lastByKey tokenKey (orEmpty (before c))"
  let ?A = "lastByKey tokenKey (orEmpty (after c))"
  have B: "?B k = (case lastByKey tokenKey ts2 k of Some x \<Rightarrow> Some x
      | None \<Rightarrow> if tokenKey t = k then Some t else lastByKey tokenKey ts1 k)" for k
    by (simp add: assms(2) orEmpty_def lastByKey_append_Cons)
  have A: "?A k = (case lastByKey tokenKey ts2 k of Some x \<Rightarrow> Some x
      | None \<Rightarrow> if tokenKey t = k then Some (t\<lparr>decimals := d\<rparr>) else lastByKey tokenKey ts1 k)" for k
    by (simp add: assms(3) orEmpty_def lastByKey_append_Cons)
  have noMajor: "\<not> (\<exists>k b. ?B k = Some b \<and> (case ?A k of None \<Rightarrow> True | Some a \<Rightarrow> idDiff b a))"
    unfolding A B by (auto simp: idDiff_def split: option.splits if_splits)
  have noMinor: "\<not> (\<exists>k a. ?A k = Some a \<and> ?B k = None)"
    unfolding A B by (auto split: option.splits if_splits)
  from assms(5) have "lastByKey tokenKey ts2 (tokenKey t) = None"
    by (simp add: lastByKey_None_iff)
  then have "?B (tokenKey t) = Some t \<and> ?A (tokenKey t) = Some (t\<lparr>decimals := d\<rparr>)"
    unfolding A B by simp
  moreover from assms(4) have "fieldDiff t (t\<lparr>decimals := d\<rparr>)" by (simp add: fieldDiff_def)
  ultimately have patch: "\<exists>k b a. ?B k = Some b \<and> ?A k = Some a \<and> fieldDiff b a" by blast
  show ?thesis
    unfolding determineVersionIncrement_def classify_modified [OF assms(1)]
    using noMajor noMinor patch by simp
qed

text \<open>
  The claim as stated fails: when \<open>before\<close> holds \<open>testToken\<close> twice and the
  decimals of the first one change, the map holds the second one on both sides, and the
  verdict is none.
\<close>

theorem decimals_change_counterexample:
  "determineVersionIncrement
     [modifiedFile [testToken, testToken] [testToken\<lparr>decimals := 6\<rparr>, testToken]] = None"
  by code_simp

text \<open>
  The witness: between \<open>newToken\<close> and \<open>oldToken\<close>, the decimals of \<open>testToken\<close>
  change from 18 to 6.
\<close>

theorem decimals_change_patch_witness:
  "type (modifiedFile ([newToken] @ testToken # [oldToken])
      ([newToken] @ testToken\<lparr>decimals := 6\<rparr> # [oldToken])) = modified \<and>
   6 \<noteq> decimals testToken \<and>
   tokenKey testToken \<notin> tokenKey ` set [oldToken] \<and>
   determineVersionIncrement
     [modifiedFile ([newToken] @ testToken # [oldToken])
        ([newToken] @ testToken\<lparr>decimals := 6\<rparr> # [oldToken])] =
     Some Patch"
proof -
  let ?c = "modifiedFile ([newToken] @ testToken # [oldToken])
      ([newToken] @ testToken\<lparr>decimals := 6\<rparr> # [oldToken])"
  have 1: "type ?c = modified" by (simp add: modifiedFile_def)
  have 2: "before ?c = Some ([newToken] @ testToken # [oldToken])" by (simp add: modifiedFile_def)
  have 3: "after ?c = Some ([newToken] @ testToken\<lparr>decimals := 6\<rparr> # [oldToken])"
    by (simp add: modifiedFile_def)
  have 4: "6 \<noteq> decimals testToken" by (simp add: testToken_def)
  have 5: "tokenKey testToken \<notin> tokenKey ` set [oldToken]"
    by (simp add: tokenKey_def testToken_def oldToken_def)
  from 1 4 5 decimals_change_patch [OF 1 2 3 4 5] show ?thesis by blast
qed

text \<open>
  C9, as the code has it. For a version whose numbers are below \<open>2^53\<close> in magnitude,
  where the addition of numbers is exact, the update gives: for major the version
  \<open>(major + 1, 0, 0)\<close>, for minor \<open>(major, minor + 1, 0)\<close>, for patch
  \<open>(major, minor, patch + 1)\<close>. For the verdict none the template, with its version and
  its timestamp, is unchanged, whatever the numbers are. The build script applies this to the
  verdict of \<open>determineVersionIncrement\<close>.
\<close>

theorem version_update:
  "(\<bar>major (version t)\<bar> < 2 ^ 53 \<longrightarrow>
      version (applyIncrement (Some Major) now t) =
        \<lparr>major = major (version t) + 1, minor = 0, patch = 0\<rparr>) \<and>
   (\<bar>minor (version t)\<bar> < 2 ^ 53 \<longrightarrow>
      version (applyIncrement (Some Minor) now t) =
        \<lparr>major = major (version t), minor = minor (version t) + 1, patch = 0\<rparr>) \<and>
   (\<bar>patch (version t)\<bar> < 2 ^ 53 \<longrightarrow>
      version (applyIncrement (Some Patch) now t) =
        \<lparr>major = major (version t), minor = minor (version t), patch = patch (version t) + 1\<rparr>) \<and>
   applyIncrement None now t = t \<and>
   version (applyIncrement None now t) = version t \<and>
   timestamp (applyIncrement None now t) = timestamp t \<and>
   updatedTemplate True changes now t =
     applyIncrement (determineVersionIncrement changes) now t"
  by (simp add: applyIncrement_def newVersion_def updatedTemplate_def numberAdd_exact)

text \<open>
  The claim as stated fails: at the major version \<open>2^53\<close> the sum \<open>2^53 + 1\<close> is no
  number, the addition gives \<open>2^53\<close> again, and the new version is \<open>(2^53, 0, 0)\<close>.
\<close>

theorem version_update_counterexample:
  "major (version (applyIncrement (Some Major) ''2024-01-01T00:00:00.000Z''
      (baseTemplate\<lparr>version := \<lparr>major = 9007199254740992, minor = 4, patch = 2\<rparr>\<rparr>))) =
     9007199254740992 \<and>
   major (version (applyIncrement (Some Major) ''2024-01-01T00:00:00.000Z''
      (baseTemplate\<lparr>version := \<lparr>major = 9007199254740992, minor = 4, patch = 2\<rparr>\<rparr>))) \<noteq>
     9007199254740992 + 1"
  by (simp add: applyIncrement_def newVersion_def baseTemplate_def numberAdd_2_53)

text \<open>The witness: the three updates of the version \<open>1.4.2\<close>.\<close>

theorem version_update_witness:
  "\<bar>major (version baseTemplate)\<bar> < 2 ^ 53 \<and> \<bar>minor (version baseTemplate)\<bar> < 2 ^ 53 \<and>
   \<bar>patch (version baseTemplate)\<bar> < 2 ^ 53 \<and>
   version (applyIncrement (Some Major) ''2024-01-01T00:00:00.000Z'' baseTemplate) =
     \<lparr>major = 2, minor = 0, patch = 0\<rparr> \<and>
   version (applyIncrement (Some Minor) ''2024-01-01T00:00:00.000Z'' baseTemplate) =
     \<lparr>major = 1, minor = 5, patch = 0\<rparr> \<and>
   version (applyIncrement (Some Patch) ''2024-01-01T00:00:00.000Z'' baseTemplate) =
     \<lparr>major = 1, minor = 4, patch = 3\<rparr>"
  using version_update [of baseTemplate "''2024-01-01T00:00:00.000Z''" "[]"]
  by (simp add: baseTemplate_def)

text \<open>
  C10. The run of the classifier ends with a verdict for every change list, never with an
  error: the one call that fails on \<^verbatim>\<open>undefined\<close>, \<^verbatim>\<open>map\<close>, has a receiver that
  \<^verbatim>\<open>|| []\<close> has made an array, while without that guard a \<open>modified\<close> record with an
  absent \<open>before\<close> or \<open>after\<close> ends the run with a TypeError. An absent \<open>before\<close> or
  \<open>after\<close> gives the verdict of the empty sequence. A map holds one entry per key, and a
  later write under a key replaces the earlier one.
\<close>

theorem classifier_total:
  "determineVersionIncrement_run changes = Inr (determineVersionIncrement changes) \<and>
   determineVersionIncrement changes \<in> {Some Major, Some Minor, Some Patch, None} \<and>
   analyzeModified_unguarded tokenKey (c\<lparr>before := None\<rparr>) f = Inl TypeError \<and>
   analyzeModified_unguarded tokenKey (c\<lparr>after := None\<rparr>) f = Inl TypeError \<and>
   analyzeModified_run tokenKey (c\<lparr>before := None\<rparr>) f =
     analyzeModified_run tokenKey (c\<lparr>before := Some []\<rparr>) f \<and>
   analyzeModified_run tokenKey (c\<lparr>after := None\<rparr>) f =
     analyzeModified_run tokenKey (c\<lparr>after := Some []\<rparr>) f \<and>
   determineVersionIncrement_run (pre @ c\<lparr>before := None\<rparr> # post) =
     determineVersionIncrement_run (pre @ c\<lparr>before := Some []\<rparr> # post) \<and>
   determineVersionIncrement_run (pre @ c\<lparr>after := None\<rparr> # post) =
     determineVersionIncrement_run (pre @ c\<lparr>after := Some []\<rparr> # post) \<and>
   distinct (map fst (new_Map entries)) \<and>
   Map_get (new_Map []) k = None \<and>
   Map_get (new_Map (entries @ [(k, v)])) = (Map_get (new_Map entries))(k \<mapsto> v)"
proof (intro conjI)
  show "determineVersionIncrement_run changes = Inr (determineVersionIncrement changes)"
    by (rule determineVersionIncrement_run_eq)
  show "determineVersionIncrement changes \<in> {Some Major, Some Minor, Some Patch, None}"
    unfolding determineVersionIncrement_def by (rule classify_range)
  show "analyzeModified_unguarded tokenKey (c\<lparr>before := None\<rparr>) f = Inl TypeError"
    by (rule analyzeModified_unguarded_fails) simp
  show "analyzeModified_unguarded tokenKey (c\<lparr>after := None\<rparr>) f = Inl TypeError"
    by (rule analyzeModified_unguarded_fails) simp
  show "analyzeModified_run tokenKey (c\<lparr>before := None\<rparr>) f =
     analyzeModified_run tokenKey (c\<lparr>before := Some []\<rparr>) f"
    by (simp add: analyzeModified_run_def orEmptyArray_def)
  show "analyzeModified_run tokenKey (c\<lparr>after := None\<rparr>) f =
     analyzeModified_run tokenKey (c\<lparr>after := Some []\<rparr>) f"
    by (simp add: analyzeModified_run_def orEmptyArray_def)
  show "determineVersionIncrement_run (pre @ c\<lparr>before := None\<rparr> # post) =
     determineVersionIncrement_run (pre @ c\<lparr>before := Some []\<rparr> # post)"
    by (simp add: determineVersionIncrement_run_eq determineVersionIncrement_def classify_def
        analyzeChanges_append analyzeChange_missing_before)
  show "determineVersionIncrement_run (pre @ c\<lparr>after := None\<rparr> # post) =
     determineVersionIncrement_run (pre @ c\<lparr>after := Some []\<rparr> # post)"
    by (simp add: determineVersionIncrement_run_eq determineVersionIncrement_def classify_def
        analyzeChanges_append analyzeChange_missing_after)
  show "distinct (map fst (new_Map entries))" by (rule new_Map_distinct)
  show "Map_get (new_Map []) k = None" by (simp add: Map_get_def new_Map_def)
  show "Map_get (new_Map (entries @ [(k, v)])) = (Map_get (new_Map entries))(k \<mapsto> v)"
    by (rule ext) (simp add: Map_get_def new_Map_snoc Map_set_map_of)
qed

end
